theory Spec2Isabelle
  imports Main "HOL-Library.Word" "HOL-Library.Multiset"
begin

unbundle bit_operations_syntax

section \<open>Machine words and blocks (stBlock.h)\<close>

text \<open>
  \<open>u8\<close>, \<open>u32\<close> and \<open>u64\<close> are the fixed-width unsigned integers of stBlock.h; all
  arithmetic on them wraps.  A \<open>Block64\<close> is a union over 64 bytes; its main view is
  sixteen 32-bit words, and this is how a block value is represented here: a list of
  sixteen \<open>u32\<close>.  The \<open>u64\<close> view of the union pairs the words little-endian
  (word \<open>2 * i\<close> is the low half of \<open>u64[i]\<close>).
\<close>

type_synonym u8 = "8 word"
type_synonym u32 = "32 word"
type_synonym u64 = "64 word"
type_synonym block64 = "u32 list"

definition u64_of :: "u32 \<Rightarrow> u32 \<Rightarrow> u64" where
  "u64_of lo hi = ucast lo OR push_bit 32 (ucast hi)"

definition block_u64 :: "block64 \<Rightarrow> nat \<Rightarrow> u64" where
  "block_u64 b i = u64_of (b ! (2 * i)) (b ! (2 * i + 1))"

definition zero_block :: block64 where
  "zero_block = replicate 16 0"

definition xor_block :: "block64 \<Rightarrow> block64 \<Rightarrow> block64" where
  "xor_block a b = map (\<lambda>i. a ! i XOR b ! i) [0..<16]"

section \<open>The ChaCha primitive (stChaCha.h)\<close>

definition ChaCha20_constants :: "u32 list" where
  "ChaCha20_constants = [0x61707865, 0x3320646e, 0x79622d32, 0x6b206574]"

text \<open>The quarter round on four words; the source updates its four reference
  arguments in this order.\<close>

definition QR :: "u32 \<times> u32 \<times> u32 \<times> u32 \<Rightarrow> u32 \<times> u32 \<times> u32 \<times> u32" where
  "QR = (\<lambda>(a, b, c, d).
     let a = a + b; d = d XOR a; d = word_rotl 16 d;
         c = c + d; b = b XOR c; b = word_rotl 12 b;
         a = a + b; d = d XOR a; d = word_rotl 8 d;
         c = c + d; b = b XOR c; b = word_rotl 7 b
     in (a, b, c, d))"

text \<open>\<open>QR(x[i], x[j], x[k], x[l])\<close> on the working array: the four references are
  distinct elements of \<open>x\<close>.\<close>

definition QR_at :: "nat \<Rightarrow> nat \<Rightarrow> nat \<Rightarrow> nat \<Rightarrow> u32 list \<Rightarrow> u32 list" where
  "QR_at i j k l x =
     (case QR (x ! i, x ! j, x ! k, x ! l) of
        (a, b, c, d) \<Rightarrow> x[i := a, j := b, k := c, l := d])"

text \<open>The body of the round loop of \<open>permute_block\<close>: eight quarter rounds.\<close>

definition double_round :: "u32 list \<Rightarrow> u32 list" where
  "double_round x =
     (let x = QR_at 0 4 8 12 x;
          x = QR_at 1 5 9 13 x;
          x = QR_at 2 6 10 14 x;
          x = QR_at 3 7 11 15 x;
          x = QR_at 0 5 10 15 x;
          x = QR_at 1 6 11 12 x;
          x = QR_at 2 7 8 13 x;
          x = QR_at 3 4 9 14 x
      in x)"

text \<open>\<open>for (int r = 0; r < 10; ++r)\<close>, counted down by the number of iterations left.\<close>

primrec rounds :: "nat \<Rightarrow> u32 list \<Rightarrow> u32 list" where
  "rounds 0 x = x"
| "rounds (Suc n) x = rounds n (double_round x)"

subsection \<open>\<open>permute_block(out, in)\<close> on a store\<close>

text \<open>
  \<open>permute_block\<close> takes two pointers, which callers may pass equal
  (\<open>permute_block(state, state)\<close>).  To speak about aliasing the memory is explicit: a
  store maps word addresses to 32-bit words, a block at address \<open>p\<close> occupies
  \<open>p, ..., p + 15\<close>.  The working array \<open>x\<close> is a local of the function and not part
  of the store.
\<close>

type_synonym store = "nat \<Rightarrow> u32"

definition load_block :: "store \<Rightarrow> nat \<Rightarrow> block64" where
  "load_block h p = map (\<lambda>i. h (p + i)) [0..<16]"

text \<open>\<open>for (int i = 0; i < 16; ++i) out[i] = x[i] + in[i];\<close>: every iteration reads
  \<open>in[i]\<close> from the current store and writes \<open>out[i]\<close>.\<close>

function add_input :: "nat \<Rightarrow> nat \<Rightarrow> u32 list \<Rightarrow> nat \<Rightarrow> store \<Rightarrow> store" where
  "add_input out inp x i h =
     (if i < 16 then add_input out inp x (i + 1) (h(out + i := x ! i + h (inp + i)))
      else h)"
  by pat_completeness auto
termination
  by (relation "measure (\<lambda>(out, inp, x, i, h). 16 - i)") auto

declare add_input.simps [simp del]

definition permute_block :: "nat \<Rightarrow> nat \<Rightarrow> store \<Rightarrow> store" where
  "permute_block out inp h =
     (let x = load_block h inp;
          x = rounds 10 x
      in add_input out inp x 0 h)"

text \<open>The value \<open>permute_block\<close> computes from the sixteen input words, for the callers
  that are modelled on values.\<close>

definition permute_words :: "block64 \<Rightarrow> block64" where
  "permute_words s = (let x = rounds 10 s in map (\<lambda>i. x ! i + s ! i) [0..<16])"

subsection \<open>The block permutation as the specification words it\<close>

text \<open>
  The specification's description: copy the input to a working array; ten double
  rounds, each four column quarter rounds on the index quartets (0,4,8,12), (1,5,9,13),
  (2,6,10,14), (3,7,11,15) followed by four diagonal quarter rounds on (0,5,10,15),
  (1,6,11,12), (2,7,8,13), (3,4,9,14); then add the original input word-wise
  modulo \<open>2^32\<close>.
\<close>

definition spec_quarter_round :: "u32 \<times> u32 \<times> u32 \<times> u32 \<Rightarrow> u32 \<times> u32 \<times> u32 \<times> u32" where
  "spec_quarter_round = (\<lambda>(a0, b0, c0, d0).
     let a1 = a0 + b0; d1 = word_rotl 16 (d0 XOR a1);
         c1 = c0 + d1; b1 = word_rotl 12 (b0 XOR c1);
         a2 = a1 + b1; d2 = word_rotl 8 (d1 XOR a2);
         c2 = c1 + d2; b2 = word_rotl 7 (b1 XOR c2)
     in (a2, b2, c2, d2))"

definition spec_column_quartets :: "(nat \<times> nat \<times> nat \<times> nat) list" where
  "spec_column_quartets = [(0, 4, 8, 12), (1, 5, 9, 13), (2, 6, 10, 14), (3, 7, 11, 15)]"

definition spec_diagonal_quartets :: "(nat \<times> nat \<times> nat \<times> nat) list" where
  "spec_diagonal_quartets = [(0, 5, 10, 15), (1, 6, 11, 12), (2, 7, 8, 13), (3, 4, 9, 14)]"

definition spec_quartet :: "nat \<times> nat \<times> nat \<times> nat \<Rightarrow> u32 list \<Rightarrow> u32 list" where
  "spec_quartet = (\<lambda>(i, j, k, l) x.
     case spec_quarter_round (x ! i, x ! j, x ! k, x ! l) of
       (a, b, c, d) \<Rightarrow> x[i := a, j := b, k := c, l := d])"

definition spec_double_round :: "u32 list \<Rightarrow> u32 list" where
  "spec_double_round x = fold spec_quartet spec_diagonal_quartets (fold spec_quartet spec_column_quartets x)"

definition spec_block_permutation :: "block64 \<Rightarrow> block64" where
  "spec_block_permutation s = map2 (+) ((spec_double_round ^^ 10) s) s"

section \<open>The compressor (stCompressor.h)\<close>

text \<open>
  \<open>class Compressor\<close> has one member, the \<open>Block64 state\<close>; an object at address
  \<open>this\<close> occupies the sixteen words from \<open>this\<close> on.  Its member functions are
  modelled on the store, so that the effect on the object is visible.
\<close>

text \<open>\<open>operator^=(a, b)\<close> of stBlock.h for a 64-byte block: eight 64-bit XORs, each
  reading and writing two adjacent 32-bit words; there are no tail bytes.\<close>

function xor_assign :: "nat \<Rightarrow> nat \<Rightarrow> nat \<Rightarrow> store \<Rightarrow> store" where
  "xor_assign a b i h =
     (if i < 8
      then xor_assign a b (i + 1)
             (h(a + 2 * i := h (a + 2 * i) XOR h (b + 2 * i),
                a + 2 * i + 1 := h (a + 2 * i + 1) XOR h (b + 2 * i + 1)))
      else h)"
  by pat_completeness auto
termination
  by (relation "measure (\<lambda>(a, b, i, h). 8 - i)") auto

declare xor_assign.simps [simp del]

text \<open>\<open>Block64 h = state;\<close>: the copy of a block into a new object.\<close>

definition copy_block :: "nat \<Rightarrow> nat \<Rightarrow> store \<Rightarrow> store" where
  "copy_block dst src h = (\<lambda>a. if dst \<le> a \<and> a < dst + 16 then h (src + (a - dst)) else h a)"

text \<open>\<open>void update(const Block64& block)\<close>; \<open>block\<close> is the address of the argument.\<close>

definition Compressor_update :: "nat \<Rightarrow> nat \<Rightarrow> store \<Rightarrow> store" where
  "Compressor_update this block h =
     (let h = xor_assign this block 0 h
      in permute_block this this h)"

text \<open>\<open>Block64 finalize(uint64_t total_bytes) const\<close>.  The local \<open>h\<close> is a new
  object; \<open>hp\<close> is its address.  The function returns the value of \<open>h\<close>; the
  resulting store is returned with it.\<close>

definition Compressor_finalize :: "nat \<Rightarrow> nat \<Rightarrow> u64 \<Rightarrow> store \<Rightarrow> block64 \<times> store" where
  "Compressor_finalize this hp total_bytes h =
     (let h = copy_block hp this h;
          h = h(hp + 0 := h (hp + 0) XOR 0x01);
          bit_len = word_rotl 3 total_bytes;
          h = h(hp + 12 := h (hp + 12) XOR ucast bit_len);
          h = h(hp + 13 := h (hp + 13) XOR ucast (drop_bit 32 bit_len));
          h = permute_block hp hp h
      in (load_block h hp, h))"

text \<open>The same two member functions on values, for the callers that are modelled on
  values: the new state after \<open>update\<close>, and the digest \<open>finalize\<close> returns.\<close>

definition update_words :: "block64 \<Rightarrow> block64 \<Rightarrow> block64" where
  "update_words state block = permute_words (xor_block state block)"

definition finalize_words :: "block64 \<Rightarrow> u64 \<Rightarrow> block64" where
  "finalize_words state total_bytes =
     (let h = state;
          h = h[0 := h ! 0 XOR 0x01];
          bit_len = word_rotl 3 total_bytes;
          h = h[12 := h ! 12 XOR ucast bit_len];
          h = h[13 := h ! 13 XOR ucast (drop_bit 32 bit_len)]
      in permute_words h)"

text \<open>A sequence of \<open>n\<close> calls of \<open>finalize\<close> on the same object, the digests
  dropped: the store after them.\<close>

primrec finalize_calls :: "nat \<Rightarrow> nat \<Rightarrow> nat \<Rightarrow> u64 \<Rightarrow> store \<Rightarrow> store" where
  "finalize_calls 0 this hp total_bytes h = h"
| "finalize_calls (Suc n) this hp total_bytes h =
     finalize_calls n this hp total_bytes (snd (Compressor_finalize this hp total_bytes h))"

section \<open>Errors\<close>

text \<open>
  The exceptions of the sources, as values: \<open>Invalid_Argument\<close> is
  \<open>std::invalid_argument\<close>; \<open>Exhausted\<close> is the \<open>std::runtime_error\<close> "StoneRNG:
  key/nonce pair exhausted" of \<open>refill_buffer\<close>; \<open>Discard_Overflow\<close> is the
  \<open>std::runtime_error\<close> "block_counter overflow during discard".  \<open>Out_Of_Bounds\<close>
  stands for an index past the end of a \<open>std::string_view\<close>, where C++ leaves the
  behaviour undefined.
\<close>

datatype error = Invalid_Argument | Exhausted | Discard_Overflow | Out_Of_Bounds

section \<open>The state builder (stChaCha.h)\<close>

text \<open>\<open>build_state(key, nonce, block_counter)\<close>, the original layout: constants, the
  eight key words, the counter (low word, then high word), the two nonce words.\<close>

definition build_state :: "u32 list \<Rightarrow> u32 list \<Rightarrow> u64 \<Rightarrow> block64" where
  "build_state key nonce block_counter =
     ChaCha20_constants @ take 8 key @
     [ucast block_counter, ucast (drop_bit 32 block_counter), nonce ! 0, nonce ! 1]"

section \<open>The generator (StoneRNG.h)\<close>

text \<open>
  The members of \<open>class StoneRNG\<close>.  \<open>key\<close> is a \<open>std::array\<close> of eight words and
  \<open>nonce\<close> one of two.  \<open>word_index\<close> is a \<open>size_t\<close>; it is a natural number here,
  and every state an object can be in has \<open>word_index \<le> 8\<close>, so that neither
  \<open>8 - word_index\<close> nor \<open>word_index += n\<close> of \<open>discard\<close> wraps.

  An exception leaves the object alive, with the members as they were when it was
  thrown.  Every member function therefore returns the state together with its result
  or error.
\<close>

record StoneRNG =
  key :: "u32 list"
  nonce :: "u32 list"
  block_counter :: u64
  buffer :: block64
  word_index :: nat

definition max_u64 :: u64 where
  "max_u64 = 0xFFFFFFFFFFFFFFFF"

definition refill_buffer :: "StoneRNG \<Rightarrow> (error + unit) \<times> StoneRNG" where
  "refill_buffer s =
     (let state = build_state (key s) [nonce s ! 0, nonce s ! 1] (block_counter s);
          s = s\<lparr>buffer := permute_words state\<rparr>;
          s = s\<lparr>word_index := 0\<rparr>;
          s = s\<lparr>block_counter := block_counter s + 1\<rparr>
      in if block_counter s = 0 then (Inl Exhausted, s) else (Inr (), s))"

text \<open>\<open>result_type operator()()\<close>.\<close>

definition operator_call :: "StoneRNG \<Rightarrow> (error + u64) \<times> StoneRNG" where
  "operator_call s =
     (case (if word_index s \<ge> 8 then refill_buffer s else (Inr (), s)) of
        (Inl e, s) \<Rightarrow> (Inl e, s)
      | (Inr u, s) \<Rightarrow> (Inr (block_u64 (buffer s) (word_index s)), s\<lparr>word_index := word_index s + 1\<rparr>))"

text \<open>The constructors that take a key and a nonce, a 64-byte seed block and a 32-byte
  seed block (eight words).  A constructor that throws constructs no object.  The
  constructors from operating-system entropy and from \<open>std::mt19937_64\<close> are not
  modelled: they fill the key and the nonce (the first of them the counter too, the
  second leaves it 0) and then call \<open>refill_buffer\<close>, so every object they construct
  is in a state that the first constructor yields for that key, nonce and counter.\<close>

definition prime :: "StoneRNG \<Rightarrow> error + StoneRNG" where
  "prime s = (case refill_buffer s of (Inl e, s) \<Rightarrow> Inl e | (Inr u, s) \<Rightarrow> Inr s)"

definition StoneRNG_key_nonce :: "u32 list \<Rightarrow> u32 list \<Rightarrow> u64 \<Rightarrow> error + StoneRNG" where
  "StoneRNG_key_nonce k n initial_counter =
     prime \<lparr>key = k, nonce = n, block_counter = initial_counter, buffer = zero_block, word_index = 8\<rparr>"

definition StoneRNG_Block64 :: "block64 \<Rightarrow> error + StoneRNG" where
  "StoneRNG_Block64 block =
     (let temp = block;
          temp = permute_words temp
      in prime \<lparr>key = take 8 temp, nonce = take 2 (drop 8 temp), block_counter = 0,
                buffer = zero_block, word_index = 8\<rparr>)"

definition StoneRNG_Block32 :: "u32 list \<Rightarrow> error + StoneRNG" where
  "StoneRNG_Block32 block =
     (let temp = take 8 block @ replicate 8 0;
          temp = permute_words temp
      in prime \<lparr>key = take 8 temp, nonce = take 2 (drop 8 temp), block_counter = 0,
                buffer = zero_block, word_index = 8\<rparr>)"

text \<open>\<open>unbiased(lo, hi)\<close>.  \<open>unbiased_range\<close> and \<open>unbiased_limit\<close> are its two
  constants; \<open>unbiased_loop\<close> is its \<open>do ... while (value > limit)\<close>.\<close>

definition unbiased_range :: "u64 \<Rightarrow> u64 \<Rightarrow> u64" where
  "unbiased_range lo hi = hi - lo + 1"

definition unbiased_limit :: "u64 \<Rightarrow> u64 \<Rightarrow> u64" where
  "unbiased_limit lo hi = max_u64 - (max_u64 mod unbiased_range lo hi)"

text \<open>The loop draws at least one word less of the key/nonce pair's supply in every
  iteration: that is its termination measure.\<close>

definition words_left :: "StoneRNG \<Rightarrow> nat" where
  "words_left s = (2 ^ 64 - 1 - unat (block_counter s)) * 8 + (8 - word_index s)"

lemma operator_call_words_left:
  assumes "operator_call s = (Inr v, s')"
  shows "words_left s' < words_left s"
proof (cases "word_index s \<ge> 8")
  case True
  with assms have nz: "1 + block_counter s \<noteq> 0"
    and c: "block_counter s' = 1 + block_counter s" and w: "word_index s' = 1"
    by (auto simp: operator_call_def refill_buffer_def Let_def add.commute split: if_splits)
  have "unat (block_counter s') = Suc (unat (block_counter s))"
    unfolding c using nz by (rule unatSuc)
  moreover have "unat (block_counter s') < 2 ^ 64"
    using unsigned_less [of "block_counter s'"] by simp
  ultimately show ?thesis using True w by (simp add: words_left_def)
next
  case False
  with assms show ?thesis by (auto simp: operator_call_def words_left_def)
qed

function unbiased_loop :: "u64 \<Rightarrow> u64 \<Rightarrow> u64 \<Rightarrow> StoneRNG \<Rightarrow> (error + u64) \<times> StoneRNG" where
  "unbiased_loop lo range' limit s =
     (case operator_call s of
        (Inl e, s) \<Rightarrow> (Inl e, s)
      | (Inr value, s) \<Rightarrow>
          if value > limit then unbiased_loop lo range' limit s
          else (Inr (lo + value mod range'), s))"
  by pat_completeness auto
termination
  by (relation "measure (\<lambda>(lo, range', limit, s). words_left s)")
     (auto dest: operator_call_words_left [OF sym])

declare unbiased_loop.simps [simp del]

definition unbiased :: "u64 \<Rightarrow> u64 \<Rightarrow> StoneRNG \<Rightarrow> (error + u64) \<times> StoneRNG" where
  "unbiased lo0 hi0 s =
     (let (lo, hi) = (if lo0 > hi0 then (hi0, lo0) else (lo0, hi0))
      in if lo = hi then (Inr lo, s)
         else if hi - lo = max_u64 then operator_call s
         else let range' = unbiased_range lo hi;
                  limit = unbiased_limit lo hi
              in unbiased_loop lo range' limit s)"

definition reseed :: "u32 list \<Rightarrow> u32 list \<Rightarrow> StoneRNG \<Rightarrow> (error + unit) \<times> StoneRNG" where
  "reseed k n s =
     (let s = s\<lparr>key := k\<rparr>;
          s = s\<lparr>nonce := n\<rparr>;
          s = s\<lparr>block_counter := 0\<rparr>
      in refill_buffer s)"

definition discard :: "u64 \<Rightarrow> StoneRNG \<Rightarrow> (error + unit) \<times> StoneRNG" where
  "discard n s =
     (if n = 0 then (Inr (), s)
      else
        let remaining = 8 - word_index s
        in if unat n < remaining then (Inr (), s\<lparr>word_index := word_index s + unat n\<rparr>)
           else
             let n = n - of_nat remaining;
                 s = s\<lparr>word_index := 8\<rparr>;
                 full_blocks = n div 8;
                 remainder = n mod 8
             in if full_blocks > 0 \<and> block_counter s > max_u64 - full_blocks
                then (Inl Discard_Overflow, s)
                else
                  let s = (if full_blocks > 0
                           then s\<lparr>block_counter := block_counter s + full_blocks\<rparr> else s)
                  in if remainder \<noteq> 0
                     then (case refill_buffer s of
                             (Inl e, s) \<Rightarrow> (Inl e, s)
                           | (Inr u, s) \<Rightarrow> (Inr (), s\<lparr>word_index := unat remainder\<rparr>))
                     else (Inr (), s))"

text \<open>\<open>operator==\<close>: the key difference is accumulated over the eight words.\<close>

definition rng_eq :: "StoneRNG \<Rightarrow> StoneRNG \<Rightarrow> bool" where
  "rng_eq lhs rhs =
     (let key_diff = fold (\<lambda>i d. d OR (key lhs ! i XOR key rhs ! i)) [0..<8] (0 :: u32)
      in key_diff = 0 \<and>
         nonce lhs = nonce rhs \<and>
         block_counter lhs = block_counter rhs \<and>
         word_index lhs = word_index rhs)"

subsection \<open>The states of a generator\<close>

text \<open>
  What holds of every state an object gets into: the array sizes, \<open>word_index \<le> 8\<close>,
  and, while words of the buffer are still to be handed out, the buffer is the block of
  the counter value before the last increment (modulo \<open>2^64\<close>).
\<close>

definition rng_inv :: "StoneRNG \<Rightarrow> bool" where
  "rng_inv s \<longleftrightarrow>
     length (key s) = 8 \<and> length (nonce s) = 2 \<and> word_index s \<le> 8 \<and>
     (word_index s < 8 \<longrightarrow>
        buffer s = permute_words (build_state (key s) (nonce s) (block_counter s - 1)))"

text \<open>The states reachable through the public interface: produced by a constructor
  that returned, then changed by any of the public member functions, whether they
  return or throw.  The stream operators \<open>operator<<\<close> and \<open>operator>>\<close> are
  not among the steps: StoneRNG.h declares them in its private section, as
  "deliberately NOT part of the public interface".  (An \<open>operator>>\<close> that throws on
  a bad \<open>word_index\<close> byte has already overwritten key, nonce and counter and has kept
  the old buffer, which is a state outside the ones below.)\<close>

inductive reachable :: "StoneRNG \<Rightarrow> bool" where
  from_key_nonce:
    "length k = 8 \<Longrightarrow> length n = 2 \<Longrightarrow> StoneRNG_key_nonce k n c = Inr s \<Longrightarrow> reachable s"
| from_Block64: "length b = 16 \<Longrightarrow> StoneRNG_Block64 b = Inr s \<Longrightarrow> reachable s"
| from_Block32: "length b = 8 \<Longrightarrow> StoneRNG_Block32 b = Inr s \<Longrightarrow> reachable s"
| after_call: "reachable s \<Longrightarrow> reachable (snd (operator_call s))"
| after_unbiased: "reachable s \<Longrightarrow> reachable (snd (unbiased lo hi s))"
| after_discard: "reachable s \<Longrightarrow> reachable (snd (discard n s))"
| after_reseed: "reachable s \<Longrightarrow> length k = 8 \<Longrightarrow> length n = 2 \<Longrightarrow> reachable (snd (reseed k n s))"

text \<open>A sequence of operations on one generator and what each of them yields: a word,
  nothing, or an exception (after which the caller goes on with the same object).\<close>

datatype rng_op = Call | Unbiased u64 u64 | Discard u64 | Reseed "u32 list" "u32 list"

fun apply_op :: "rng_op \<Rightarrow> StoneRNG \<Rightarrow> (error + u64 option) \<times> StoneRNG" where
  "apply_op Call s = (case operator_call s of (r, s) \<Rightarrow> (map_sum id Some r, s))"
| "apply_op (Unbiased lo hi) s = (case unbiased lo hi s of (r, s) \<Rightarrow> (map_sum id Some r, s))"
| "apply_op (Discard n) s = (case discard n s of (r, s) \<Rightarrow> (map_sum id (\<lambda>u. None) r, s))"
| "apply_op (Reseed k n) s = (case reseed k n s of (r, s) \<Rightarrow> (map_sum id (\<lambda>u. None) r, s))"

fun outputs :: "rng_op list \<Rightarrow> StoneRNG \<Rightarrow> (error + u64 option) list" where
  "outputs [] s = []"
| "outputs (x # xs) s = (case apply_op x s of (r, s) \<Rightarrow> r # outputs xs s)"

text \<open>Two states agree when they differ at most in a buffer that is used up.\<close>

definition agree :: "StoneRNG \<Rightarrow> StoneRNG \<Rightarrow> bool" where
  "agree s1 s2 \<longleftrightarrow>
     key s1 = key s2 \<and> nonce s1 = nonce s2 \<and> block_counter s1 = block_counter s2 \<and>
     word_index s1 = word_index s2 \<and> (word_index s1 < 8 \<longrightarrow> buffer s1 = buffer s2)"

text \<open>The two sides of the discard law: \<open>keep_last n\<close> calls \<open>operator()\<close>
  \<open>n + 1\<close> times and keeps the last result (it stops at the first exception);
  \<open>discard_then_call n\<close> is \<open>discard(n)\<close> followed by one call.\<close>

primrec keep_last :: "nat \<Rightarrow> StoneRNG \<Rightarrow> (error + u64) \<times> StoneRNG" where
  "keep_last 0 s = operator_call s"
| "keep_last (Suc n) s =
     (case operator_call s of (Inl e, s) \<Rightarrow> (Inl e, s) | (Inr v, s) \<Rightarrow> keep_last n s)"

definition discard_then_call :: "u64 \<Rightarrow> StoneRNG \<Rightarrow> (error + u64) \<times> StoneRNG" where
  "discard_then_call n s =
     (case discard n s of (Inl e, s) \<Rightarrow> (Inl e, s) | (Inr u, s) \<Rightarrow> operator_call s)"

text \<open>The part of \<open>discard\<close> after the rest of the buffer is consumed, as a function
  of the remaining count \<open>m\<close>; shown below to be what \<open>discard\<close> does there.\<close>

definition discard_blocks :: "u64 \<Rightarrow> StoneRNG \<Rightarrow> (error + unit) \<times> StoneRNG" where
  "discard_blocks m s =
     (if 0 < m div 8 \<and> max_u64 - m div 8 < block_counter s
      then (Inl Discard_Overflow, s\<lparr>word_index := 8\<rparr>)
      else if m mod 8 \<noteq> 0
        then (case refill_buffer (s\<lparr>word_index := 8, block_counter := block_counter s + m div 8\<rparr>) of
                (Inl e, s) \<Rightarrow> (Inl e, s)
              | (Inr u, s) \<Rightarrow> (Inr (), s\<lparr>word_index := unat (m mod 8)\<rparr>))
        else (Inr (), s\<lparr>word_index := 8, block_counter := block_counter s + m div 8\<rparr>))"

text \<open>The keystream words on which the loop of \<open>unbiased(lo, hi)\<close> stops and returns
  \<open>r\<close>: those that are not above the limit and reduce to \<open>r\<close>.\<close>

definition accepted :: "u64 \<Rightarrow> u64 \<Rightarrow> u64 \<Rightarrow> u64 set" where
  "accepted lo hi r =
     {value. \<not> value > unbiased_limit lo hi \<and> lo + value mod unbiased_range lo hi = r}"

section \<open>Bytes and words\<close>

text \<open>All conversions between words and bytes are little-endian; a character of a
  \<open>std::string\<close> is one byte.\<close>

definition le_bytes32 :: "u32 \<Rightarrow> u8 list" where
  "le_bytes32 w = map (\<lambda>k. ucast (drop_bit (8 * k) w)) [0..<4]"

definition le_bytes64 :: "u64 \<Rightarrow> u8 list" where
  "le_bytes64 w = map (\<lambda>k. ucast (drop_bit (8 * k) w)) [0..<8]"

definition le_word32 :: "u8 list \<Rightarrow> u32" where
  "le_word32 bs =
     ucast (bs ! 0) OR push_bit 8 (ucast (bs ! 1)) OR push_bit 16 (ucast (bs ! 2)) OR
     push_bit 24 (ucast (bs ! 3))"

definition block_bytes :: "u32 list \<Rightarrow> u8 list" where
  "block_bytes b = concat (map le_bytes32 b)"

definition bytes_block :: "u8 list \<Rightarrow> block64" where
  "bytes_block bs = map (\<lambda>i. le_word32 (take 4 (drop (4 * i) bs))) [0..<16]"

definition string_bytes :: "string \<Rightarrow> u8 list" where
  "string_bytes s = map of_char s"

section \<open>The sponge hash (StoneHash)\<close>

text \<open>
  Modelled from the spec: StoneHash.h, the class \<open>StoneHash\<close> with \<open>update\<close>,
  \<open>finalize\<close> and \<open>hash256\<close>, is not among the sources.  The specification (section 4.2)
  gives it as a sponge over the compressor: a pending buffer of up to 63 bytes; each
  full 64-byte block is XORed into the state, which is then permuted; \<open>finalize\<close> XORs the
  residual bytes, zero-padded, into the state and finalizes the compressor with the
  total number of bytes; \<open>hash256\<close> is the first 256 bits.  Successive \<open>update\<close> calls
  absorb the concatenation of their arguments, so the hash is a function of that byte
  string.
\<close>

function absorb_blocks :: "block64 \<Rightarrow> u8 list \<Rightarrow> block64 \<times> u8 list" where
  "absorb_blocks state bytes =
     (if 64 \<le> length bytes
      then absorb_blocks (update_words state (bytes_block (take 64 bytes))) (drop 64 bytes)
      else (state, bytes))"
  by pat_completeness auto
termination
  by (relation "measure (\<lambda>(state, bytes). length bytes)") auto

declare absorb_blocks.simps [simp del]

text \<open>Modelled from the spec: \<open>StoneHash::finalize\<close> (section 4.2), on all the bytes
  the updates have passed in: the residual bytes are zero-padded to a block and XORed
  into the state, and the compressor is finalized with the total number of bytes.\<close>

definition StoneHash_finalize :: "u8 list \<Rightarrow> block64" where
  "StoneHash_finalize bytes =
     (case absorb_blocks zero_block bytes of
        (state, pending) \<Rightarrow>
          let state = xor_block state (bytes_block (pending @ replicate (64 - length pending) 0))
          in finalize_words state (of_nat (length bytes)))"

text \<open>Modelled from the spec: \<open>StoneHash::hash256\<close> (section 4.2), the first 256
  bits of the final block.\<close>

definition StoneHash_hash256 :: "u8 list \<Rightarrow> u32 list" where
  "StoneHash_hash256 bytes = take 8 (StoneHash_finalize bytes)"

section \<open>The key derivation (StoneKey.h)\<close>

definition STONEKEY_V2_M_COST :: u32 where
  "STONEKEY_V2_M_COST = 20"

definition STONEKEY_V2_T_COST :: u32 where
  "STONEKEY_V2_T_COST = 3"

definition GOLDEN_GAMMA :: u64 where
  "GOLDEN_GAMMA = 0x9e3779b97f4a7c15"

text \<open>Phase 1, the body of the fill loop for block \<open>i\<close>.\<close>

definition fill_block :: "string \<Rightarrow> string \<Rightarrow> nat \<Rightarrow> block64" where
  "fill_block password context i =
     StoneHash_finalize
       (string_bytes ''StoneHash::v2::fill'' @
        (if length context > 0 then string_bytes context else []) @
        le_bytes64 (of_nat i) @
        (if i = 0 then string_bytes password else []))"

text \<open>
  Phase 2, the body of the innermost loop, for the pair \<open>a\<close>, \<open>b = a + span\<close>:
  \<open>x\<close> and \<open>y\<close> point to \<open>memory[a]\<close> and \<open>memory[b]\<close>.  \<open>std::vector\<close> does not
  check an index; an index past the end is the error \<open>Out_Of_Bounds\<close> here.
\<close>

definition mix_pair :: "u64 \<Rightarrow> nat \<Rightarrow> nat \<Rightarrow> block64 list \<Rightarrow> error + block64 list" where
  "mix_pair counter a b memory =
     (if a < length memory \<and> b < length memory
      then
        let x = memory ! a;
            y = memory ! b;
            mix = counter XOR (push_bit 32 (of_nat a) OR of_nat b);
            y = map (\<lambda>i. y ! i XOR (x ! i XOR ucast (drop_bit (i * 4) mix))) [0..<16];
            y = QR_at 0 4 8 12 y;
            y = QR_at 1 5 9 13 y;
            y = QR_at 2 6 10 14 y;
            y = QR_at 3 7 11 15 y;
            x = map (\<lambda>i. x ! i XOR y ! i) [0..<16]
        in Inr (memory[b := y, a := x])
      else Inl Out_Of_Bounds)"

text \<open>\<open>for (size_t k = 0; k < span; ++k)\<close>.\<close>

function k_loop :: "nat \<Rightarrow> nat \<Rightarrow> nat \<Rightarrow> u64 \<Rightarrow> block64 list \<Rightarrow> error + block64 list" where
  "k_loop span start k counter memory =
     (if k < span
      then (case mix_pair counter (start + k) (start + k + span) memory of
              Inl e \<Rightarrow> Inl e
            | Inr memory \<Rightarrow> k_loop span start (k + 1) counter memory)
      else Inr memory)"
  by pat_completeness auto
termination
  by (relation "measure (\<lambda>(span, start, k, counter, memory). span - k)") auto

declare k_loop.simps [simp del]

text \<open>
  \<open>for (size_t start = 0; start < n_blocks; start += 2 * span)\<close> and
  \<open>for (size_t span = 1; span < n_blocks; span *= 2)\<close>.  \<open>span\<close> starts at 1 and is
  only ever doubled: it is \<open>2 ^ j\<close> in the \<open>j\<close>-th iteration, and the two loops are given
  \<open>j\<close>.
\<close>

function start_loop :: "nat \<Rightarrow> nat \<Rightarrow> nat \<Rightarrow> u64 \<Rightarrow> block64 list \<Rightarrow> error + block64 list" where
  "start_loop n_blocks j start counter memory =
     (if start < n_blocks
      then (case k_loop (2 ^ j) start 0 counter memory of
              Inl e \<Rightarrow> Inl e
            | Inr memory \<Rightarrow> start_loop n_blocks j (start + 2 * 2 ^ j) counter memory)
      else Inr memory)"
  by pat_completeness auto
termination
  by (relation "measure (\<lambda>(n_blocks, j, start, counter, memory). n_blocks - start)")
     (auto intro!: diff_less_mono2)

declare start_loop.simps [simp del]

function span_loop :: "nat \<Rightarrow> nat \<Rightarrow> u64 \<Rightarrow> block64 list \<Rightarrow> error + block64 list" where
  "span_loop n_blocks j counter memory =
     (if 2 ^ j < n_blocks
      then (case start_loop n_blocks j 0 counter memory of
              Inl e \<Rightarrow> Inl e
            | Inr memory \<Rightarrow> span_loop n_blocks (j + 1) counter memory)
      else Inr memory)"
  by pat_completeness auto
termination
  by (relation "measure (\<lambda>(n_blocks, j, counter, memory). n_blocks - 2 ^ j)")
     (auto intro!: diff_less_mono2)

declare span_loop.simps [simp del]

text \<open>\<open>for (uint32_t round = 0; round < t_cost; ++round)\<close>, by the number of rounds
  left.\<close>

primrec time_loop :: "nat \<Rightarrow> nat \<Rightarrow> u64 \<Rightarrow> block64 list \<Rightarrow> error + block64 list" where
  "time_loop 0 n_blocks counter memory = Inr memory"
| "time_loop (Suc rounds_left) n_blocks counter memory =
     (let counter = counter + GOLDEN_GAMMA
      in case span_loop n_blocks 0 counter memory of
           Inl e \<Rightarrow> Inl e
         | Inr memory \<Rightarrow> time_loop rounds_left n_blocks counter memory)"

text \<open>\<open>acc.u64[k] ^= v\<close> on the word view of the block.\<close>

definition xor_u64_at :: "nat \<Rightarrow> u64 \<Rightarrow> block64 \<Rightarrow> block64" where
  "xor_u64_at k v b =
     b[2 * k := b ! (2 * k) XOR ucast v, 2 * k + 1 := b ! (2 * k + 1) XOR ucast (drop_bit 32 v)]"

text \<open>Phase 3, the compression loop.\<close>

function compress_loop :: "nat \<Rightarrow> nat \<Rightarrow> block64 \<Rightarrow> block64 list \<Rightarrow> error + block64" where
  "compress_loop n_blocks i acc memory =
     (if i < n_blocks
      then
        if i < length memory
        then
          let acc = map (\<lambda>j. acc ! j XOR memory ! i ! j) [0..<16];
              acc = xor_u64_at 0 (of_nat i) acc;
              acc = xor_u64_at 1 (push_bit 32 (of_nat i)) acc;
              acc = xor_u64_at 2 (of_nat i * GOLDEN_GAMMA) acc;
              acc = xor_u64_at 3 (of_nat i * drop_bit 13 GOLDEN_GAMMA) acc;
              acc = permute_words acc
          in compress_loop n_blocks (i + 1) acc memory
        else Inl Out_Of_Bounds
      else Inr acc)"
  by pat_completeness auto
termination
  by (relation "measure (\<lambda>(n_blocks, i, acc, memory). n_blocks - i)") auto

declare compress_loop.simps [simp del]

text \<open>The derivation after the argument checks.  The allocation of the arena is taken
  to succeed; wiping the arena (phase 4) does not change the result.\<close>

definition StoneKey_derive :: "string \<Rightarrow> string \<Rightarrow> u32 \<Rightarrow> u32 \<Rightarrow> error + u32 list" where
  "StoneKey_derive password context m_cost t_cost =
     (let n_blocks = 2 ^ unat m_cost;
          memory = map (fill_block password context) [0..<n_blocks];
          counter = GOLDEN_GAMMA;
          counter = counter XOR
            block_u64 (StoneHash_finalize
              (string_bytes ''StoneHash::v2::counter_seed'' @ string_bytes password)) 0
      in case time_loop (unat t_cost) n_blocks counter memory of
           Inl e \<Rightarrow> Inl e
         | Inr memory \<Rightarrow>
             (case compress_loop n_blocks 0 zero_block memory of
                Inl e \<Rightarrow> Inl e
              | Inr acc \<Rightarrow>
                  let acc = permute_words acc
                  in Inr (StoneHash_hash256
                       (string_bytes ''StoneKey::v2::final'' @ string_bytes password @
                        string_bytes context @ block_bytes acc))))"

definition StoneKey :: "string \<Rightarrow> string \<Rightarrow> u32 \<Rightarrow> u32 \<Rightarrow> error + u32 list" where
  "StoneKey password context m_cost t_cost =
     (if m_cost > 26 then Inl Invalid_Argument
      else if t_cost = 0 then Inl Invalid_Argument
      else if length password = 0 then Inl Invalid_Argument
      else StoneKey_derive password context m_cost t_cost)"

section \<open>The password composer (StonePass.h)\<close>

subsection \<open>The context string\<close>

text \<open>
  A string literal is a character array that ends with a NUL; \<open>std::string(const char*)\<close>
  and \<open>operator+(std::string, const char*)\<close> take the characters of their argument up
  to its first NUL, while \<open>operator+(std::string, char)\<close> and
  \<open>operator+(std::string, std::string)\<close> append their whole argument.  \<open>c_str\<close> is
  what the first two read from a literal with the given characters.
\<close>

definition NUL :: char where
  "NUL = CHR 0x00"

definition c_str :: "string \<Rightarrow> string" where
  "c_str literal = takeWhile (\<lambda>c. c \<noteq> NUL) literal"

text \<open>\<open>std::to_string(int)\<close>: the decimal digits, after a minus sign for a negative
  number.\<close>

definition digit_char :: "nat \<Rightarrow> char" where
  "digit_char d = ''0123456789'' ! d"

function decimal :: "nat \<Rightarrow> string" where
  "decimal n = (if n < 10 then [digit_char n] else decimal (n div 10) @ [digit_char (n mod 10)])"
  by pat_completeness auto
termination
  by (relation "measure (\<lambda>n. n)") auto

declare decimal.simps [simp del]

definition to_string :: "int \<Rightarrow> string" where
  "to_string i = (if i < 0 then CHR ''-'' # decimal (nat (- i)) else decimal (nat i))"

text \<open>The expression that initialises \<open>context\<close> in \<open>generate_password\<close>, operator by
  operator from the left, every literal with the characters it has in the source.\<close>

definition context_string ::
  "int \<Rightarrow> string \<Rightarrow> string \<Rightarrow> int \<Rightarrow> bool \<Rightarrow> bool \<Rightarrow> bool \<Rightarrow> bool \<Rightarrow> string" where
  "context_string password_version username site_name password_length
       require_uppercase require_lowercase require_digits require_symbols =
     (let s = c_str (''StonePassword_v1.0'' @ [NUL]);
          s = s @ to_string password_version;
          s = s @ [NUL];
          s = s @ username;
          s = s @ [NUL];
          s = s @ site_name;
          s = s @ [NUL];
          s = s @ c_str ''len:'';
          s = s @ to_string password_length;
          s = s @ c_str (NUL # ''upper:'');
          s = s @ c_str (if require_uppercase then ''1'' else ''0'');
          s = s @ c_str (NUL # ''lower:'');
          s = s @ c_str (if require_lowercase then ''1'' else ''0'');
          s = s @ c_str (NUL # ''digits:'');
          s = s @ c_str (if require_digits then ''1'' else ''0'');
          s = s @ c_str (NUL # ''symbols:'');
          s = s @ c_str (if require_symbols then ''1'' else ''0'')
      in s)"

text \<open>The context string as the specification writes it: the byte string
  \<open>"StonePassword_v1.0\0" V "\0" U "\0" S "\0" "len:" L "\0upper:" b "\0lower:" b
  "\0digits:" b "\0symbols:" b\<close>, with \<open>V\<close> and \<open>L\<close> in decimal and each \<open>b\<close> the
  character 1 or 0.\<close>

definition spec_flag :: "bool \<Rightarrow> string" where
  "spec_flag b = (if b then ''1'' else ''0'')"

definition spec_context ::
  "int \<Rightarrow> string \<Rightarrow> string \<Rightarrow> int \<Rightarrow> bool \<Rightarrow> bool \<Rightarrow> bool \<Rightarrow> bool \<Rightarrow> string" where
  "spec_context V U S L upper lower digits symbols =
     ''StonePassword_v1.0'' @ [NUL] @ to_string V @ [NUL] @ U @ [NUL] @ S @ [NUL] @
     ''len:'' @ to_string L @
     [NUL] @ ''upper:'' @ spec_flag upper @
     [NUL] @ ''lower:'' @ spec_flag lower @
     [NUL] @ ''digits:'' @ spec_flag digits @
     [NUL] @ ''symbols:'' @ spec_flag symbols"

subsection \<open>Drawing and shuffling\<close>

text \<open>
  The lambda \<open>draw\<close>.  \<open>characters.size() - 1\<close> is computed in \<open>size_t\<close> and wraps for
  an empty string; \<open>characters[i]\<close> on a \<open>std::string_view\<close> does not check \<open>i\<close>.
\<close>

definition draw :: "string \<Rightarrow> StoneRNG \<Rightarrow> (error + char) \<times> StoneRNG" where
  "draw characters rng =
     (let max_index = (of_nat (length characters) - 1 :: u64)
      in case unbiased 0 max_index rng of
           (Inl e, rng) \<Rightarrow> (Inl e, rng)
         | (Inr i, rng) \<Rightarrow>
             if unat i < length characters then (Inr (characters ! unat i), rng)
             else (Inl Out_Of_Bounds, rng))"

text \<open>\<open>password += draw(characters, rng)\<close>, on the pair of the password built so far
  and the generator.  An exception leaves \<open>generate_password\<close>, so only the error is
  kept.\<close>

definition append_draw :: "string \<Rightarrow> string \<times> StoneRNG \<Rightarrow> error + string \<times> StoneRNG" where
  "append_draw characters = (\<lambda>(password, rng).
     case draw characters rng of
       (Inl e, rng) \<Rightarrow> Inl e
     | (Inr c, rng) \<Rightarrow> Inr (password @ [c], rng))"

lemma append_draw_length:
  "append_draw characters (password, rng) = Inr (password', rng') \<Longrightarrow>
   length password' = Suc (length password)"
  by (auto simp add: append_draw_def split: prod.splits sum.splits)

text \<open>\<open>while (password.size() < password_length) password += draw(all_chars, rng);\<close>\<close>

function fill_loop :: "nat \<Rightarrow> string \<Rightarrow> string \<times> StoneRNG \<Rightarrow> error + string \<times> StoneRNG" where
  "fill_loop password_length all_chars (password, rng) =
     (if length password < password_length
      then (case append_draw all_chars (password, rng) of
              Inl e \<Rightarrow> Inl e
            | Inr st \<Rightarrow> fill_loop password_length all_chars st)
      else Inr (password, rng))"
  by pat_completeness auto
termination
  by (relation "measure (\<lambda>(password_length, all_chars, password, rng). password_length - length password)")
     (auto dest!: append_draw_length)

declare fill_loop.simps [simp del]

text \<open>
  \<open>for (size_t i = password_length - 1; i > 0; --i)\<close> with the swap of \<open>password[i]\<close>
  and \<open>password[j]\<close>: \<open>shuffle_loop i\<close> runs the iterations \<open>i, i - 1, ..., 1\<close>.
  \<open>std::string::operator[]\<close> does not check its index.
\<close>

fun shuffle_loop :: "nat \<Rightarrow> string \<times> StoneRNG \<Rightarrow> error + string \<times> StoneRNG" where
  "shuffle_loop 0 st = Inr st"
| "shuffle_loop (Suc i') (password, rng) =
     (let i = Suc i'
      in case unbiased 0 (of_nat i) rng of
           (Inl e, rng) \<Rightarrow> Inl e
         | (Inr j, rng) \<Rightarrow>
             if i < length password \<and> unat j < length password
             then shuffle_loop i'
                    (password[i := password ! unat j, unat j := password ! i], rng)
             else Inl Out_Of_Bounds)"

text \<open>The part of \<open>generate_password\<close> from "Define Character Pools" to the
  \<open>return\<close>, for the generator the key has seeded.\<close>

definition build_password ::
  "nat \<Rightarrow> string \<Rightarrow> string \<Rightarrow> string \<Rightarrow> string \<Rightarrow> bool \<Rightarrow> bool \<Rightarrow> bool \<Rightarrow> bool \<Rightarrow> StoneRNG \<Rightarrow>
   error + string" where
  "build_password password_length uppercase lowercase digits symbols
       require_uppercase require_lowercase require_digits require_symbols rng =
     (let all_chars = [];
          all_chars = (if require_uppercase then all_chars @ uppercase else all_chars);
          all_chars = (if require_lowercase then all_chars @ lowercase else all_chars);
          all_chars = (if require_digits then all_chars @ digits else all_chars);
          all_chars = (if require_symbols then all_chars @ symbols else all_chars);
          st = Inr ([], rng);
          st = (if require_uppercase then (case st of Inl e \<Rightarrow> Inl e | Inr st \<Rightarrow> append_draw uppercase st) else st);
          st = (if require_lowercase then (case st of Inl e \<Rightarrow> Inl e | Inr st \<Rightarrow> append_draw lowercase st) else st);
          st = (if require_digits then (case st of Inl e \<Rightarrow> Inl e | Inr st \<Rightarrow> append_draw digits st) else st);
          st = (if require_symbols then (case st of Inl e \<Rightarrow> Inl e | Inr st \<Rightarrow> append_draw symbols st) else st);
          st = (case st of Inl e \<Rightarrow> Inl e | Inr st \<Rightarrow> fill_loop password_length all_chars st);
          st = (case st of Inl e \<Rightarrow> Inl e | Inr st \<Rightarrow> shuffle_loop (password_length - 1) st)
      in case st of Inl e \<Rightarrow> Inl e | Inr (password, rng) \<Rightarrow> Inr password)"

subsection \<open>\<open>generate_password\<close>\<close>

definition STONEPASS_UPPERCASE :: string where
  "STONEPASS_UPPERCASE = ''ABCDEFGHJKLMNPQRSTUVWXYZ''"

definition STONEPASS_LOWERCASE :: string where
  "STONEPASS_LOWERCASE = ''abcdefghijkmnpqrstuvwxyz''"

definition STONEPASS_DIGITS :: string where
  "STONEPASS_DIGITS = ''23456789''"

definition STONEPASS_SYMBOLS :: string where
  "STONEPASS_SYMBOLS = ''@#$%&*()[]{};:,.?''"

text \<open>\<open>password_length\<close> and \<open>password_version\<close> are \<open>int\<close>s of the source; they are
  only compared, and \<open>password_length\<close> is between 6 and 128 where it is converted to
  \<open>size_t\<close>.\<close>

definition generate_password ::
  "string \<Rightarrow> string \<Rightarrow> string \<Rightarrow> int \<Rightarrow> int \<Rightarrow> string \<Rightarrow> string \<Rightarrow> string \<Rightarrow> string \<Rightarrow>
   bool \<Rightarrow> bool \<Rightarrow> bool \<Rightarrow> bool \<Rightarrow> error + string" where
  "generate_password username master_password site_name password_length password_version
       uppercase_chars lowercase_chars digit_chars symbol_chars
       require_uppercase require_lowercase require_digits require_symbols =
     (if username = [] then Inl Invalid_Argument
      else if master_password = [] then Inl Invalid_Argument
      else if site_name = [] then Inl Invalid_Argument
      else if password_length < 6 \<or> password_length > 128 then Inl Invalid_Argument
      else if password_version < 1 then Inl Invalid_Argument
      else if require_uppercase \<and> uppercase_chars = [] then Inl Invalid_Argument
      else if require_lowercase \<and> lowercase_chars = [] then Inl Invalid_Argument
      else if require_digits \<and> digit_chars = [] then Inl Invalid_Argument
      else if require_symbols \<and> symbol_chars = [] then Inl Invalid_Argument
      else
        let required_count = (0 :: int);
            required_count = (if require_uppercase then required_count + 1 else required_count);
            required_count = (if require_lowercase then required_count + 1 else required_count);
            required_count = (if require_digits then required_count + 1 else required_count);
            required_count = (if require_symbols then required_count + 1 else required_count)
        in if password_length < required_count then Inl Invalid_Argument
           else
             let context = context_string password_version username site_name password_length
                             require_uppercase require_lowercase require_digits require_symbols
             in case StoneKey master_password context STONEKEY_V2_M_COST STONEKEY_V2_T_COST of
                  Inl e \<Rightarrow> Inl e
                | Inr hash1 \<Rightarrow>
                    (case StoneRNG_Block32 hash1 of
                       Inl e \<Rightarrow> Inl e
                     | Inr rng \<Rightarrow>
                         build_password (nat password_length)
                           uppercase_chars lowercase_chars digit_chars symbol_chars
                           require_uppercase require_lowercase require_digits require_symbols rng))"

subsection \<open>Outcomes of the composer\<close>

text \<open>A computation of the composer either returns a value with the property \<open>Q\<close> or
  stops with the generator's exhaustion error.\<close>

definition returns_or_exhausted :: "('a \<Rightarrow> bool) \<Rightarrow> error + 'a \<Rightarrow> bool" where
  "returns_or_exhausted Q m = (case m of Inl e \<Rightarrow> e = Exhausted | Inr x \<Rightarrow> Q x)"

text \<open>Policy conformance of a password: its length, a character of every required
  category, and every character in a required category.\<close>

definition policy_conformant ::
  "nat \<Rightarrow> string \<Rightarrow> string \<Rightarrow> string \<Rightarrow> string \<Rightarrow> bool \<Rightarrow> bool \<Rightarrow> bool \<Rightarrow> bool \<Rightarrow> string \<Rightarrow> bool" where
  "policy_conformant L uppercase lowercase digits symbols
       require_uppercase require_lowercase require_digits require_symbols password \<longleftrightarrow>
     length password = L \<and>
     (require_uppercase \<longrightarrow> (\<exists>c \<in> set password. c \<in> set uppercase)) \<and>
     (require_lowercase \<longrightarrow> (\<exists>c \<in> set password. c \<in> set lowercase)) \<and>
     (require_digits \<longrightarrow> (\<exists>c \<in> set password. c \<in> set digits)) \<and>
     (require_symbols \<longrightarrow> (\<exists>c \<in> set password. c \<in> set symbols)) \<and>
     (\<forall>c \<in> set password.
        (require_uppercase \<and> c \<in> set uppercase) \<or> (require_lowercase \<and> c \<in> set lowercase) \<or>
        (require_digits \<and> c \<in> set digits) \<or> (require_symbols \<and> c \<in> set symbols))"

section \<open>Properties of the ChaCha primitive\<close>

lemma length_load_block [simp]: "length (load_block h p) = 16"
  by (simp add: load_block_def)

lemma nth_load_block [simp]: "i < 16 \<Longrightarrow> load_block h p ! i = h (p + i)"
  by (simp add: load_block_def del: upt_Suc)

text \<open>Rotation as the two shifts, which the simplifier evaluates on numerals.\<close>

lemma word_rotl_32:
  assumes "n < 32"
  shows "word_rotl n (w :: u32) = push_bit n w OR drop_bit (32 - n) w"
proof (rule bit_word_eqI)
  fix k assume "k < LENGTH(32)"
  then have k: "k < 32" by simp
  show "bit (word_rotl n w) k = bit (push_bit n w OR drop_bit (32 - n) w) k"
  proof (cases "n \<le> k")
    case True
    have "k + (32 - n) = (k - n) + 32" using True assms by arith
    moreover have "((k - n) + 32) mod 32 = k - n" using k by simp
    ultimately have "(k + (32 - n)) mod 32 = k - n" by (simp only:)
    moreover have "\<not> bit w (32 - n + k)"
    proof
      assume "bit w (32 - n + k)"
      then have "32 - n + k < LENGTH(32)" by (rule bit_imp_le_length)
      then show False using True assms by simp
    qed
    ultimately show ?thesis using True assms k by (simp add: bit_simps)
  next
    case False
    then have "(k + (32 - n)) mod 32 = 32 - n + k" using assms k by simp
    then show ?thesis using False assms k by (simp add: bit_simps)
  qed
qed

text \<open>The quarter round on the test vector of RFC 8439, section 2.1.1.\<close>

lemma QR_rfc8439_2_1_1:
  "QR (0x11111111, 0x01020304, 0x9b8d6f43, 0x01234567) =
     (0xea2a92f4, 0xcb1cf8ce, 0x4581472e, 0x5881c4bb)"
  by (simp add: QR_def Let_def word_rotl_32)

text \<open>The quarter round on elements 2, 7, 8 and 13 of a state, on the test vector of
  RFC 8439, section 2.2.1.\<close>

lemma QR_at_rfc8439_2_2_1:
  "QR_at 2 7 8 13
     [0x879531e0, 0xc5ecf37d, 0x516461b1, 0xc9a62f8a,
      0x44c20ef3, 0x3390af7f, 0xd9fc690b, 0x2a5f714c,
      0x53372767, 0xb00a5631, 0x974c541d, 0x359e9963,
      0x5c971061, 0x3d631689, 0x2098d9d6, 0x91dbd320] =
     [0x879531e0, 0xc5ecf37d, 0xbdb886dc, 0xc9a62f8a,
      0x44c20ef3, 0x3390af7f, 0xd9fc690b, 0xcfacafd2,
      0xe46bea80, 0xb00a5631, 0x974c541d, 0x359e9963,
      0x5c971061, 0xccc07c79, 0x2098d9d6, 0x91dbd320]"
  by (simp add: QR_at_def QR_def Let_def word_rotl_32)

lemma length_QR_at [simp]: "length (QR_at i j k l x) = length x"
  by (simp add: QR_at_def split: prod.split)

lemma length_double_round [simp]: "length (double_round x) = length x"
  by (simp add: double_round_def Let_def)

lemma length_rounds [simp]: "length (rounds n x) = length x"
  by (induction n arbitrary: x) simp_all

lemma length_permute_words [simp]: "length (permute_words s) = 16"
  by (simp add: permute_words_def Let_def)

lemma add_input_done: "\<not> i < 16 \<Longrightarrow> add_input out inp x i h = h"
  by (subst add_input.simps) simp

lemma add_input_step:
  "i < 16 \<Longrightarrow> add_input out inp x i h = add_input out inp x (Suc i) (h(out + i := x ! i + h (inp + i)))"
  by (subst add_input.simps) simp

lemma add_input_at:
  "out = inp \<or> out + 16 \<le> inp \<or> inp + 16 \<le> out \<Longrightarrow>
   add_input out inp x i h a =
     (if out + i \<le> a \<and> a < out + 16 then x ! (a - out) + h (inp + (a - out)) else h a)"
proof (induction "16 - i" arbitrary: i h)
  case 0
  then have a: "\<not> i < 16" and b: "\<not> (out + i \<le> a \<and> a < out + 16)" by arith+
  show ?case unfolding add_input_done [OF a] if_not_P [OF b] ..
next
  case (Suc n)
  then have lt: "i < 16" and n: "n = 16 - Suc i" by arith+
  let ?h = "h(out + i := x ! i + h (inp + i))"
  have ih: "add_input out inp x (Suc i) ?h a =
     (if out + Suc i \<le> a \<and> a < out + 16 then x ! (a - out) + ?h (inp + (a - out)) else ?h a)"
    using Suc.hyps(1) [OF n Suc.prems] .
  have step: "add_input out inp x i h a = add_input out inp x (Suc i) ?h a"
    by (simp only: add_input_step [OF lt])
  consider (later) "out + Suc i \<le> a \<and> a < out + 16" | (here) "a = out + i"
    | (outside) "\<not> (out + i \<le> a \<and> a < out + 16)"
    by arith
  then show ?case
  proof cases
    case later
    then have c: "out + i \<le> a \<and> a < out + 16" by arith
    from later Suc.prems have "inp + (a - out) \<noteq> out + i" by arith
    then have "?h (inp + (a - out)) = h (inp + (a - out))" by (rule fun_upd_other)
    then show ?thesis unfolding step ih if_P [OF later] if_P [OF c] by (rule arg_cong)
  next
    case here
    then have c: "out + i \<le> a \<and> a < out + 16" and nc: "\<not> (out + Suc i \<le> a \<and> a < out + 16)"
      and d: "a - out = i"
      using lt by arith+
    have "?h a = x ! i + h (inp + i)" unfolding here by (rule fun_upd_same)
    then show ?thesis unfolding step ih if_not_P [OF nc] if_P [OF c] d .
  next
    case outside
    then have nc: "\<not> (out + Suc i \<le> a \<and> a < out + 16)" and ne: "a \<noteq> out + i"
      using lt by arith+
    have "?h a = h a" using ne by (rule fun_upd_other)
    then show ?thesis unfolding step ih if_not_P [OF nc] if_not_P [OF outside] .
  qed
qed

lemma load_permute_block:
  assumes "out = inp \<or> out + 16 \<le> inp \<or> inp + 16 \<le> out"
  shows "load_block (permute_block out inp h) out = permute_words (load_block h inp)"
proof (rule nth_equalityI)
  show "length (load_block (permute_block out inp h) out) = length (permute_words (load_block h inp))"
    by simp
next
  fix i assume "i < length (load_block (permute_block out inp h) out)"
  then have i: "i < 16" by simp
  then show "load_block (permute_block out inp h) out ! i = permute_words (load_block h inp) ! i"
    by (simp add: permute_block_def permute_words_def add_input_at [OF assms] del: upt_Suc)
qed

lemma QR_eq_spec: "QR = spec_quarter_round"
  by (simp add: QR_def spec_quarter_round_def Let_def fun_eq_iff)

lemma QR_at_spec: "QR_at i j k l = spec_quartet (i, j, k, l)"
  by (simp add: fun_eq_iff QR_at_def spec_quartet_def QR_eq_spec)

lemma double_round_eq_spec: "double_round = spec_double_round"
  by (simp add: fun_eq_iff double_round_def spec_double_round_def spec_column_quartets_def
      spec_diagonal_quartets_def QR_at_spec Let_def)

lemma rounds_funpow: "rounds n x = (double_round ^^ n) x"
  by (induction n arbitrary: x) (simp_all add: funpow_swap1)

lemma permute_words_eq_spec:
  assumes "length s = 16"
  shows "permute_words s = spec_block_permutation s"
proof (rule nth_equalityI)
  show "length (permute_words s) = length (spec_block_permutation s)"
    using assms by (simp add: spec_block_permutation_def rounds_funpow [symmetric] double_round_eq_spec [symmetric])
next
  fix i assume "i < length (permute_words s)"
  then have "i < 16" by simp
  then show "permute_words s ! i = spec_block_permutation s ! i"
    using assms
    by (simp add: permute_words_def spec_block_permutation_def Let_def rounds_funpow [symmetric]
        double_round_eq_spec [symmetric] del: upt_Suc)
qed

text \<open>
  Claim C9.  The block permutation may be called with output aliasing input: for every
  store \<open>h\<close> and every block address \<open>p\<close>, the in-place call
  \<open>permute_block(p, p)\<close> leaves at \<open>p\<close> exactly the block that the call
  \<open>permute_block(q, p)\<close> writes to a distinct, non-overlapping output block \<open>q\<close>, and
  that block is the specification's permutation of the input: ten double rounds (four
  column, then four diagonal quarter rounds) added word-wise modulo \<open>2^32\<close> to the
  original input.
\<close>

theorem permute_block_in_place:
  assumes "q + 16 \<le> p \<or> p + 16 \<le> q"
  shows "load_block (permute_block p p h) p = load_block (permute_block q p h) q \<and>
         load_block (permute_block p p h) p = spec_block_permutation (load_block h p)"
  using assms by (simp add: load_permute_block permute_words_eq_spec)

theorem permute_block_in_place_witness:
  "load_block (permute_block 0 0 (\<lambda>a. 0)) 0 = load_block (permute_block 16 0 (\<lambda>a. 0)) 16 \<and>
   load_block (permute_block 0 0 (\<lambda>a. 0)) 0 = spec_block_permutation (load_block (\<lambda>a. 0) 0)"
proof -
  have disjoint: "(16::nat) + 16 \<le> 0 \<or> (0::nat) + 16 \<le> 16" by simp
  show ?thesis using permute_block_in_place [OF disjoint] .
qed

section \<open>Properties of the compressor\<close>

lemma xor_assign_done: "\<not> i < 8 \<Longrightarrow> xor_assign a b i h = h"
  by (subst xor_assign.simps) simp

lemma xor_assign_step:
  "i < 8 \<Longrightarrow> xor_assign a b i h = xor_assign a b (Suc i)
             (h(a + 2 * i := h (a + 2 * i) XOR h (b + 2 * i),
                a + 2 * i + 1 := h (a + 2 * i + 1) XOR h (b + 2 * i + 1)))"
  by (subst xor_assign.simps) simp

lemma xor_assign_at:
  "a + 16 \<le> b \<or> b + 16 \<le> a \<Longrightarrow>
   xor_assign a b i h c =
     (if a + 2 * i \<le> c \<and> c < a + 16 then h c XOR h (b + (c - a)) else h c)"
proof (induction "8 - i" arbitrary: i h)
  case 0
  then have a: "\<not> i < 8" and b: "\<not> (a + 2 * i \<le> c \<and> c < a + 16)" by arith+
  show ?case unfolding xor_assign_done [OF a] if_not_P [OF b] ..
next
  case (Suc n)
  then have lt: "i < 8" and n: "n = 8 - Suc i" by arith+
  let ?h = "h(a + 2 * i := h (a + 2 * i) XOR h (b + 2 * i),
                a + 2 * i + 1 := h (a + 2 * i + 1) XOR h (b + 2 * i + 1))"
  have ih: "xor_assign a b (Suc i) ?h c =
     (if a + 2 * Suc i \<le> c \<and> c < a + 16 then ?h c XOR ?h (b + (c - a)) else ?h c)"
    using Suc.hyps(1) [OF n Suc.prems] .
  have step: "xor_assign a b i h c = xor_assign a b (Suc i) ?h c"
    by (simp only: xor_assign_step [OF lt])
  have "(a + 2 * Suc i \<le> c \<and> c < a + 16) \<or> c = a + 2 * i \<or> c = a + 2 * i + 1
      \<or> \<not> (a + 2 * i \<le> c \<and> c < a + 16)"
    by arith
  then consider (later) "a + 2 * Suc i \<le> c \<and> c < a + 16" | (lo) "c = a + 2 * i" | (hi) "c = a + 2 * i + 1"
    | (outside) "\<not> (a + 2 * i \<le> c \<and> c < a + 16)"
    by blast
  then show ?case
  proof cases
    case later
    then have c: "a + 2 * i \<le> c \<and> c < a + 16" by arith
    from later Suc.prems have "b + (c - a) \<noteq> a + 2 * i" "b + (c - a) \<noteq> a + 2 * i + 1"
       "c \<noteq> a + 2 * i" "c \<noteq> a + 2 * i + 1" by arith+
    then have "?h (b + (c - a)) = h (b + (c - a))" "?h c = h c" by simp_all
    then show ?thesis unfolding step ih if_P [OF later] if_P [OF c] by simp
  next
    case lo
    then have c: "a + 2 * i \<le> c \<and> c < a + 16" and nc: "\<not> (a + 2 * Suc i \<le> c \<and> c < a + 16)"
      and d: "c - a = 2 * i"
      using lt by arith+
    have "?h c = h (a + 2 * i) XOR h (b + 2 * i)" unfolding lo by simp
    then show ?thesis unfolding step ih if_not_P [OF nc] if_P [OF c] d unfolding lo .
  next
    case hi
    then have c: "a + 2 * i \<le> c \<and> c < a + 16" and nc: "\<not> (a + 2 * Suc i \<le> c \<and> c < a + 16)"
      and d: "c - a = 2 * i + 1"
      using lt by arith+
    have "?h c = h (a + 2 * i + 1) XOR h (b + 2 * i + 1)" unfolding hi by simp
    then show ?thesis unfolding step ih if_not_P [OF nc] if_P [OF c] d unfolding hi
      by (simp add: add.assoc)
  next
    case outside
    then have nc: "\<not> (a + 2 * Suc i \<le> c \<and> c < a + 16)" and ne: "c \<noteq> a + 2 * i" "c \<noteq> a + 2 * i + 1"
      using lt by arith+
    have "?h c = h c" using ne by simp
    then show ?thesis unfolding step ih if_not_P [OF nc] if_not_P [OF outside] .
  qed
qed

lemma permute_block_other:
  assumes n: "\<not> (out \<le> a \<and> a < out + 16)"
    and d: "out = inp \<or> out + 16 \<le> inp \<or> inp + 16 \<le> out"
  shows "permute_block out inp h a = h a"
proof -
  have n0: "\<not> (out + 0 \<le> a \<and> a < out + 16)" using n by simp
  show ?thesis unfolding permute_block_def Let_def add_input_at [OF d] if_not_P [OF n0] ..
qed

lemma copy_block_other: "\<not> (dst \<le> a \<and> a < dst + 16) \<Longrightarrow> copy_block dst src h a = h a"
  unfolding copy_block_def by (rule if_not_P)

lemma finalize_other:
  assumes n: "\<not> (hp \<le> a \<and> a < hp + 16)"
  shows "snd (Compressor_finalize this hp t h) a = h a"
proof -
  from n have ne: "a \<noteq> hp + 0" "a \<noteq> hp + 12" "a \<noteq> hp + 13" by arith+
  have "snd (Compressor_finalize this hp t h) a = copy_block hp this h a"
    unfolding Compressor_finalize_def Let_def snd_conv
    by (simp only: permute_block_other [OF n disjI1 [OF refl]] fun_upd_other [OF ne(1)] fun_upd_other [OF ne(2)]
        fun_upd_other [OF ne(3)])
  then show ?thesis by (simp only: copy_block_other [OF n])
qed

lemma load_block_cong:
  "(\<And>i. i < 16 \<Longrightarrow> h (p + i) = h' (p + i)) \<Longrightarrow> load_block h p = load_block h' p"
  by (simp add: load_block_def del: upt_Suc)

lemma finalize_state_unchanged:
  assumes "hp + 16 \<le> this \<or> this + 16 \<le> hp"
  shows "load_block (snd (Compressor_finalize this hp t h)) this = load_block h this"
proof (rule load_block_cong)
  fix i :: nat assume "i < 16"
  with assms have "\<not> (hp \<le> this + i \<and> this + i < hp + 16)" by arith
  then show "snd (Compressor_finalize this hp t h) (this + i) = h (this + i)"
    by (rule finalize_other)
qed

lemma finalize_digest:
  assumes "hp + 16 \<le> this \<or> this + 16 \<le> hp"
  shows "fst (Compressor_finalize this hp t h) = finalize_words (load_block h this) t"
proof -
  let ?h1 = "copy_block hp this h"
  let ?h2 = "?h1(hp + 0 := ?h1 (hp + 0) XOR 0x01)"
  let ?h3 = "?h2(hp + 12 := ?h2 (hp + 12) XOR ucast (word_rotl 3 t))"
  let ?h4 = "?h3(hp + 13 := ?h3 (hp + 13) XOR ucast (drop_bit 32 (word_rotl 3 t)))"
  let ?s = "load_block h this"
  let ?s2 = "?s[0 := ?s ! 0 XOR 0x01]"
  let ?s3 = "?s2[12 := ?s2 ! 12 XOR ucast (word_rotl 3 t)]"
  let ?s4 = "?s3[13 := ?s3 ! 13 XOR ucast (drop_bit 32 (word_rotl 3 t))]"
  have "load_block ?h4 hp = ?s4"
  proof (rule nth_equalityI)
    show "length (load_block ?h4 hp) = length ?s4" by simp
  next
    fix i assume "i < length (load_block ?h4 hp)"
    then have i: "i < 16" by simp
    then show "load_block ?h4 hp ! i = ?s4 ! i"
      by (simp add: copy_block_def nth_list_update)
  qed
  then show ?thesis
    by (simp add: Compressor_finalize_def finalize_words_def Let_def load_permute_block)
qed

lemma update_state:
  assumes "block + 16 \<le> this \<or> this + 16 \<le> block"
  shows "load_block (Compressor_update this block h) this =
         update_words (load_block h this) (load_block h block)"
proof -
  have d: "this + 16 \<le> block \<or> block + 16 \<le> this" using assms by arith
  have "load_block (xor_assign this block 0 h) this = xor_block (load_block h this) (load_block h block)"
  proof (rule nth_equalityI)
    show "length (load_block (xor_assign this block 0 h) this) =
          length (xor_block (load_block h this) (load_block h block))"
      by (simp add: xor_block_def)
  next
    fix i assume "i < length (load_block (xor_assign this block 0 h) this)"
    then have i: "i < 16" by simp
    then show "load_block (xor_assign this block 0 h) this ! i =
               xor_block (load_block h this) (load_block h block) ! i"
      by (simp add: xor_assign_at [OF d] xor_block_def del: upt_Suc)
  qed
  then show ?thesis
    by (simp add: Compressor_update_def update_words_def Let_def load_permute_block)
qed

lemma finalize_calls_other:
  "\<not> (hp \<le> a \<and> a < hp + 16) \<Longrightarrow> finalize_calls n this hp t h a = h a"
  by (induction n arbitrary: h) (simp_all add: finalize_other)

text \<open>
  Claim C10.  \<open>Compressor::finalize\<close> does not modify the compressor's state: for
  every store, every compressor object \<open>this\<close>, every \<open>total_bytes\<close> and every
  placement \<open>hp\<close> of the local block outside the object, the state block is the same
  after the call; after any number \<open>n\<close> of \<open>finalize\<close> calls a further call returns
  the digest the first call returns; and an \<open>update\<close> with a block that lives outside
  the object and the local, performed after \<open>n\<close> calls of \<open>finalize\<close>, leaves the
  state that it leaves when \<open>finalize\<close> was never called.
\<close>

theorem finalize_const:
  assumes tmp: "hp + 16 \<le> this \<or> this + 16 \<le> hp"
    and arg: "block + 16 \<le> this \<or> this + 16 \<le> block" "block + 16 \<le> hp \<or> hp + 16 \<le> block"
  shows "load_block (snd (Compressor_finalize this hp t h)) this = load_block h this \<and>
         fst (Compressor_finalize this hp t (finalize_calls n this hp t h)) =
           fst (Compressor_finalize this hp t h) \<and>
         load_block (Compressor_update this block (finalize_calls n this hp t h)) this =
           load_block (Compressor_update this block h) this"
proof -
  have s: "load_block (finalize_calls n this hp t h) this = load_block h this"
  proof (rule load_block_cong)
    fix i :: nat assume "i < 16"
    with tmp have "\<not> (hp \<le> this + i \<and> this + i < hp + 16)" by arith
    then show "finalize_calls n this hp t h (this + i) = h (this + i)"
      by (rule finalize_calls_other)
  qed
  have b: "load_block (finalize_calls n this hp t h) block = load_block h block"
  proof (rule load_block_cong)
    fix i :: nat assume "i < 16"
    with arg have "\<not> (hp \<le> block + i \<and> block + i < hp + 16)" by arith
    then show "finalize_calls n this hp t h (block + i) = h (block + i)"
      by (rule finalize_calls_other)
  qed
  show ?thesis
    by (simp add: finalize_state_unchanged [OF tmp] finalize_digest [OF tmp] update_state [OF arg(1)] s b)
qed

theorem finalize_const_witness:
  "load_block (snd (Compressor_finalize 0 16 5 (\<lambda>a. 0))) 0 = load_block (\<lambda>a. 0) 0 \<and>
   fst (Compressor_finalize 0 16 5 (finalize_calls 3 0 16 5 (\<lambda>a. 0))) =
     fst (Compressor_finalize 0 16 5 (\<lambda>a. 0)) \<and>
   load_block (Compressor_update 0 32 (finalize_calls 3 0 16 5 (\<lambda>a. 0))) 0 =
     load_block (Compressor_update 0 32 (\<lambda>a. 0)) 0"
proof -
  have "(16::nat) + 16 \<le> 0 \<or> (0::nat) + 16 \<le> 16" "(32::nat) + 16 \<le> 0 \<or> (0::nat) + 16 \<le> 32"
    "(32::nat) + 16 \<le> 16 \<or> (16::nat) + 16 \<le> 32"
    by simp_all
  then show ?thesis by (rule finalize_const)
qed

section \<open>Properties of the generator\<close>

lemma build_state_nonce [simp]: "build_state k [n ! 0, n ! 1] c = build_state k n c"
  by (simp add: build_state_def)

lemma build_state_nonce' [simp]: "build_state k [n ! 0, n ! Suc 0] c = build_state k n c"
  by (simp add: build_state_def)

lemma refill_buffer_eq:
  "refill_buffer s =
     (if block_counter s + 1 = 0 then Inl Exhausted else Inr (),
      s\<lparr>buffer := permute_words (build_state (key s) (nonce s) (block_counter s)),
        word_index := 0, block_counter := block_counter s + 1\<rparr>)"
  by (simp add: refill_buffer_def Let_def)

lemma operator_call_buffered:
  "word_index s < 8 \<Longrightarrow>
   operator_call s = (Inr (block_u64 (buffer s) (word_index s)), s\<lparr>word_index := Suc (word_index s)\<rparr>)"
  by (simp add: operator_call_def)

lemma operator_call_refill:
  "8 \<le> word_index s \<Longrightarrow> block_counter s + 1 \<noteq> 0 \<Longrightarrow>
   operator_call s =
     (Inr (block_u64 (permute_words (build_state (key s) (nonce s) (block_counter s))) 0),
      s\<lparr>buffer := permute_words (build_state (key s) (nonce s) (block_counter s)),
        word_index := 1, block_counter := block_counter s + 1\<rparr>)"
  by (simp add: operator_call_def refill_buffer_eq)

lemma operator_call_exhausted:
  "8 \<le> word_index s \<Longrightarrow> block_counter s + 1 = 0 \<Longrightarrow>
   operator_call s =
     (Inl Exhausted,
      s\<lparr>buffer := permute_words (build_state (key s) (nonce s) (block_counter s)),
        word_index := 0, block_counter := 0\<rparr>)"
  by (simp add: operator_call_def refill_buffer_eq)

lemma rng_inv_refill_index:
  "length (key s) = 8 \<Longrightarrow> length (nonce s) = 2 \<Longrightarrow> w \<le> 8 \<Longrightarrow>
   rng_inv ((snd (refill_buffer s))\<lparr>word_index := w\<rparr>)"
  by (simp add: refill_buffer_eq rng_inv_def)

lemma rng_inv_refill:
  "length (key s) = 8 \<Longrightarrow> length (nonce s) = 2 \<Longrightarrow> rng_inv (snd (refill_buffer s))"
  by (simp add: refill_buffer_eq rng_inv_def)

lemma rng_inv_call: "rng_inv s \<Longrightarrow> rng_inv (snd (operator_call s))"
proof -
  assume i: "rng_inv s"
  show ?thesis
  proof (cases "word_index s < 8")
    case True
    with i show ?thesis by (auto simp add: operator_call_buffered rng_inv_def)
  next
    case False
    obtain res s' where r: "refill_buffer s = (res, s')" by (cases "refill_buffer s")
    from i have l: "length (key s) = 8" "length (nonce s) = 2" by (simp_all add: rng_inv_def)
    from r have s': "s' = snd (refill_buffer s)" by simp
    have "rng_inv s'" "rng_inv (s'\<lparr>word_index := Suc 0\<rparr>)" "word_index s' = 0"
      unfolding s' using rng_inv_refill [OF l] rng_inv_refill_index [OF l, of "Suc 0"]
      by (simp_all add: refill_buffer_eq)
    with False r show ?thesis by (cases res) (simp_all add: operator_call_def)
  qed
qed

lemma rng_inv_unbiased_loop: "rng_inv s \<Longrightarrow> rng_inv (snd (unbiased_loop lo r l s))"
proof (induction lo r l s rule: unbiased_loop.induct)
  case (1 lo r l s)
  have i: "rng_inv (snd (operator_call s))" using "1.prems" by (rule rng_inv_call)
  show ?case
  proof (cases "operator_call s")
    case (Pair res s')
    with i have i': "rng_inv s'" by simp
    show ?thesis
    proof (cases res)
      case (Inl e)
      with Pair i' show ?thesis by (subst unbiased_loop.simps) simp
    next
      case (Inr v)
      show ?thesis
      proof (cases "v > l")
        case True
        have "rng_inv (snd (unbiased_loop lo r l s'))"
          using "1.IH" [OF Pair [symmetric] Inr True i'] .
        with Pair Inr True show ?thesis by (subst unbiased_loop.simps) simp
      next
        case False
        with Pair Inr i' show ?thesis by (subst unbiased_loop.simps) simp
      qed
    qed
  qed
qed

lemma rng_inv_unbiased: "rng_inv s \<Longrightarrow> rng_inv (snd (unbiased lo hi s))"
  by (simp add: unbiased_def Let_def rng_inv_call rng_inv_unbiased_loop split: prod.split)

lemma rng_inv_reseed: "length k = 8 \<Longrightarrow> length n = 2 \<Longrightarrow> rng_inv (snd (reseed k n s))"
  by (simp add: reseed_def Let_def rng_inv_refill)

lemma rng_inv_discard: "rng_inv s \<Longrightarrow> rng_inv (snd (discard n s))"
proof -
  assume i: "rng_inv s"
  show ?thesis
  proof (cases "n = 0 \<or> unat n < 8 - word_index s")
    case True
    with i show ?thesis by (auto simp add: discard_def Let_def rng_inv_def)
  next
    case False
    define m where "m = n - of_nat (8 - word_index s)"
    define s1 where "s1 = s\<lparr>word_index := 8\<rparr>"
    define s2 where "s2 = (if m div 8 > 0 then s1\<lparr>block_counter := block_counter s1 + m div 8\<rparr> else s1)"
    have d: "discard n s =
      (if m div 8 > 0 \<and> block_counter s1 > max_u64 - m div 8 then (Inl Discard_Overflow, s1)
       else if m mod 8 \<noteq> 0
         then (case refill_buffer s2 of (Inl e, s) \<Rightarrow> (Inl e, s)
               | (Inr u, s) \<Rightarrow> (Inr (), s\<lparr>word_index := unat (m mod 8)\<rparr>))
         else (Inr (), s2))"
      unfolding m_def s1_def s2_def using False by (simp add: discard_def Let_def)
    from i have l: "length (key s2) = 8" "length (nonce s2) = 2"
      and i1: "rng_inv s1" and i2: "rng_inv s2"
      by (simp_all add: rng_inv_def s1_def s2_def)
    obtain res s3 where r: "refill_buffer s2 = (res, s3)" by (cases "refill_buffer s2")
    then have s3: "s3 = snd (refill_buffer s2)" by simp
    have "unat (m mod 8) \<le> 8" by (simp add: unat_mod_distrib)
    then have "rng_inv s3" "rng_inv (s3\<lparr>word_index := unat (m mod 8)\<rparr>)"
      unfolding s3 using rng_inv_refill [OF l] rng_inv_refill_index [OF l] by simp_all
    with i1 i2 r show ?thesis unfolding d by (cases res) simp_all
  qed
qed

lemma rng_inv_prime:
  "length (key s) = 8 \<Longrightarrow> length (nonce s) = 2 \<Longrightarrow> prime s = Inr s' \<Longrightarrow> rng_inv s'"
  by (auto simp add: prime_def refill_buffer_eq rng_inv_def split: if_splits)

lemma reachable_inv: "reachable s \<Longrightarrow> rng_inv s"
proof (induction rule: reachable.induct)
  case (from_key_nonce k n c s)
  then show ?case by (auto simp: StoneRNG_key_nonce_def intro: rng_inv_prime [rotated 2])
next
  case (from_Block64 b s)
  then show ?case by (auto simp: StoneRNG_Block64_def Let_def intro: rng_inv_prime [rotated 2])
next
  case (from_Block32 b s)
  then show ?case by (auto simp: StoneRNG_Block32_def Let_def intro: rng_inv_prime [rotated 2])
qed (simp_all add: rng_inv_call rng_inv_unbiased rng_inv_discard rng_inv_reseed)

lemma agree_refl [simp]: "agree s s"
  by (simp add: agree_def)

lemma agree_cases:
  assumes "agree s1 s2"
  obtains "s1 = s2" | b where "8 \<le> word_index s1" "s2 = s1\<lparr>buffer := b\<rparr>"
proof (cases "word_index s1 < 8")
  case True
  with assms have "s1 = s2" by (simp add: agree_def)
  then show ?thesis by (rule that(1))
next
  case False
  with assms have "8 \<le> word_index s1" "s2 = s1\<lparr>buffer := buffer s2\<rparr>" by (simp_all add: agree_def)
  then show ?thesis by (rule that(2))
qed

lemma refill_buffer_stale: "refill_buffer (s\<lparr>buffer := b\<rparr>) = refill_buffer s"
  by (simp add: refill_buffer_eq)

lemma operator_call_stale:
  "8 \<le> word_index s \<Longrightarrow> operator_call (s\<lparr>buffer := b\<rparr>) = operator_call s"
  by (simp add: operator_call_def refill_buffer_stale)

lemma unbiased_loop_stale:
  "8 \<le> word_index s \<Longrightarrow> unbiased_loop lo r l (s\<lparr>buffer := b\<rparr>) = unbiased_loop lo r l s"
  by (subst (1 2) unbiased_loop.simps) (simp add: operator_call_stale)

lemma unbiased_stale:
  "8 \<le> word_index s \<Longrightarrow>
   fst (unbiased lo hi (s\<lparr>buffer := b\<rparr>)) = fst (unbiased lo hi s) \<and>
   agree (snd (unbiased lo hi (s\<lparr>buffer := b\<rparr>))) (snd (unbiased lo hi s))"
  by (simp add: unbiased_def Let_def operator_call_stale unbiased_loop_stale agree_def split: prod.split)

lemma reseed_stale: "reseed k n (s\<lparr>buffer := b\<rparr>) = reseed k n s"
  by (simp add: reseed_def refill_buffer_eq)

lemma discard_index8:
  assumes "8 \<le> word_index t" "n \<noteq> 0"
  shows "discard n t =
      (if n div 8 > 0 \<and> block_counter t > max_u64 - n div 8
       then (Inl Discard_Overflow, t\<lparr>word_index := 8\<rparr>)
       else if n mod 8 \<noteq> 0
         then (case refill_buffer (t\<lparr>word_index := 8, block_counter := block_counter t + n div 8\<rparr>) of
                 (Inl e, s) \<Rightarrow> (Inl e, s)
               | (Inr u, s) \<Rightarrow> (Inr (), s\<lparr>word_index := unat (n mod 8)\<rparr>))
         else (Inr (), t\<lparr>word_index := 8, block_counter := block_counter t + n div 8\<rparr>))"
proof -
  have r: "8 - word_index t = 0" using assms(1) by simp
  show ?thesis
  proof (cases "0 < n div 8")
    case True
    then show ?thesis
      unfolding discard_def Let_def r semiring_1_class.of_nat_0 diff_zero using assms(2)
      by simp
  next
    case False
    then have z: "n div 8 = 0" by (simp add: word_neq_0_conv [symmetric])
    have t: "t\<lparr>word_index := 8, block_counter := block_counter t + 0\<rparr> = t\<lparr>word_index := 8\<rparr>"
      by simp
    show ?thesis
      unfolding discard_def Let_def r semiring_1_class.of_nat_0 diff_zero z t using assms(2)
      by simp
  qed
qed

lemma discard_stale:
  assumes "8 \<le> word_index s"
  shows "fst (discard n (s\<lparr>buffer := b\<rparr>)) = fst (discard n s) \<and>
         agree (snd (discard n (s\<lparr>buffer := b\<rparr>))) (snd (discard n s))"
proof (cases "n = 0")
  case True
  with assms show ?thesis by (simp add: discard_def agree_def)
next
  case False
  have a: "8 \<le> word_index (s\<lparr>buffer := b\<rparr>)" using assms by simp
  have u: "s\<lparr>buffer := b, word_index := 8, block_counter := c\<rparr> =
           s\<lparr>word_index := 8, block_counter := c\<rparr>\<lparr>buffer := b\<rparr>" for c
    by simp
  show ?thesis
    unfolding discard_index8 [OF assms False] discard_index8 [OF a False]
    by (simp add: u refill_buffer_stale agree_def split: prod.split sum.split del: )
qed

lemma apply_op_agree:
  assumes "agree s1 s2"
  shows "fst (apply_op x s1) = fst (apply_op x s2) \<and> agree (snd (apply_op x s1)) (snd (apply_op x s2))"
  using assms
proof (cases rule: agree_cases)
  case 1
  then show ?thesis by simp
next
  case (2 b)
  show ?thesis
  proof (cases x)
    case Call
    show ?thesis unfolding Call 2(2)
      by (simp add: operator_call_stale [OF 2(1)] split: prod.split)
  next
    case (Unbiased lo hi)
    show ?thesis unfolding Unbiased 2(2) using unbiased_stale [OF 2(1), of lo hi b]
      by (simp add: split_beta agree_def)
  next
    case (Discard n)
    show ?thesis unfolding Discard 2(2) using discard_stale [OF 2(1), of n b]
      by (simp add: split_beta agree_def)
  next
    case (Reseed k n)
    show ?thesis unfolding Reseed 2(2)
      by (simp add: reseed_stale split: prod.split)
  qed
qed

lemma outputs_agree: "agree s1 s2 \<Longrightarrow> outputs xs s1 = outputs xs s2"
proof (induction xs arbitrary: s1 s2)
  case Nil
  show ?case by simp
next
  case (Cons x xs)
  from apply_op_agree [OF Cons.prems, of x]
  have "fst (apply_op x s1) = fst (apply_op x s2)"
    and "agree (snd (apply_op x s1)) (snd (apply_op x s2))" by simp_all
  with Cons.IH show ?case by (simp add: split_beta)
qed

lemma word_xor_eq_0_iff: "a XOR b = 0 \<longleftrightarrow> a = b" for a b :: "'a::len word"
proof
  assume "a XOR b = 0"
  then have "(a XOR b) XOR b = 0 XOR b" by simp
  then show "a = b" by (simp add: xor.assoc)
qed simp

lemma key_diff_zero:
  "fold (\<lambda>i d. d OR (k1 ! i XOR k2 ! i)) [0..<n] (d0 :: u32) = 0 \<longleftrightarrow>
   d0 = 0 \<and> (\<forall>i < n. k1 ! i = k2 ! i)"
  by (induction n arbitrary: d0) (auto simp: less_Suc_eq or_eq_0_iff word_xor_eq_0_iff)

lemma rng_eq_iff:
  assumes "length (key s1) = 8" "length (key s2) = 8"
  shows "rng_eq s1 s2 \<longleftrightarrow>
     key s1 = key s2 \<and> nonce s1 = nonce s2 \<and> block_counter s1 = block_counter s2 \<and>
     word_index s1 = word_index s2"
proof -
  have "(\<forall>i < 8. key s1 ! i = key s2 ! i) \<longleftrightarrow> key s1 = key s2"
    using assms by (auto intro: nth_equalityI)
  then show ?thesis by (simp add: rng_eq_def Let_def key_diff_zero del: upt_Suc)
qed

text \<open>
  Claim C7.  For two generators in states reachable through the public interface,
  \<open>operator==\<close> returns true if and only if their keys, nonces, block counters and word
  indices are equal; and whenever it returns true, the two generators yield the same
  outputs (words, returns and exceptions alike) under every sequence of subsequent
  operations, although the keystream buffer is not compared.
\<close>

theorem rng_eq_same_stream:
  assumes "reachable s1" "reachable s2"
  shows "(rng_eq s1 s2 \<longleftrightarrow>
            key s1 = key s2 \<and> nonce s1 = nonce s2 \<and> block_counter s1 = block_counter s2 \<and>
            word_index s1 = word_index s2) \<and>
         (rng_eq s1 s2 \<longrightarrow> (\<forall>xs. outputs xs s1 = outputs xs s2))"
proof -
  from assms have i: "rng_inv s1" "rng_inv s2" by (simp_all add: reachable_inv)
  then have e: "rng_eq s1 s2 \<longleftrightarrow>
            key s1 = key s2 \<and> nonce s1 = nonce s2 \<and> block_counter s1 = block_counter s2 \<and>
            word_index s1 = word_index s2"
    by (intro rng_eq_iff) (simp_all add: rng_inv_def)
  have "agree s1 s2" if "rng_eq s1 s2"
    using that i unfolding e by (simp add: agree_def rng_inv_def)
  then show ?thesis using e by (auto dest: outputs_agree)
qed

lemma StoneRNG_key_nonce_eq:
  "c + 1 \<noteq> 0 \<Longrightarrow>
   StoneRNG_key_nonce k n c =
     Inr \<lparr>key = k, nonce = n, block_counter = c + 1,
          buffer = permute_words (build_state k n c), word_index = 0\<rparr>"
  by (simp add: StoneRNG_key_nonce_def prime_def refill_buffer_eq)

theorem rng_eq_same_stream_witness:
  "rng_eq (snd (discard 8 (projr (StoneRNG_key_nonce (replicate 8 0) [0, 0] 1))))
          (snd (discard 16 (projr (StoneRNG_key_nonce (replicate 8 0) [0, 0] 0)))) \<and>
   outputs [Call, Unbiased 1 6, Discard 3, Call]
       (snd (discard 8 (projr (StoneRNG_key_nonce (replicate 8 0) [0, 0] 1)))) =
   outputs [Call, Unbiased 1 6, Discard 3, Call]
       (snd (discard 16 (projr (StoneRNG_key_nonce (replicate 8 0) [0, 0] 0))))"
proof -
  let ?a = "projr (StoneRNG_key_nonce (replicate 8 0) [0, 0] 1)"
  let ?b = "projr (StoneRNG_key_nonce (replicate 8 0) [0, 0] 0)"
  have a: "StoneRNG_key_nonce (replicate 8 0) [0, 0] 1 = Inr ?a"
    and b: "StoneRNG_key_nonce (replicate 8 0) [0, 0] 0 = Inr ?b"
    by (simp_all add: StoneRNG_key_nonce_eq)
  have ra: "reachable (snd (discard 8 ?a))"
    by (rule after_discard, rule from_key_nonce [OF _ _ a]) simp_all
  have rb: "reachable (snd (discard 16 ?b))"
    by (rule after_discard, rule from_key_nonce [OF _ _ b]) simp_all
  have f: "key (snd (discard 8 ?a)) = key (snd (discard 16 ?b)) \<and>
           nonce (snd (discard 8 ?a)) = nonce (snd (discard 16 ?b)) \<and>
           block_counter (snd (discard 8 ?a)) = block_counter (snd (discard 16 ?b)) \<and>
           word_index (snd (discard 8 ?a)) = word_index (snd (discard 16 ?b))"
    by (simp add: StoneRNG_key_nonce_eq discard_def Let_def max_u64_def)
  from rng_eq_same_stream [OF ra rb] f show ?thesis by blast
qed

subsection \<open>\<open>discard\<close> against repeated calls\<close>

lemma unat_succ: "unat (n :: u64) + 1 < 2 ^ 64 \<Longrightarrow> unat (n + 1) = unat n + 1"
  by (simp add: unat_word_ariths)

lemma succ_nonzero: "unat (n :: u64) + 1 < 2 ^ 64 \<Longrightarrow> n + 1 \<noteq> 0"
proof
  assume a: "unat n + 1 < 2 ^ 64" and "n + 1 = 0"
  then have "unat (n + 1) = 0" by simp
  with unat_succ [OF a] show False by simp
qed

lemma div8_small: "unat (n :: u64) < 8 \<Longrightarrow> n div 8 = 0"
  by (simp add: word_unat_eq_iff unat_div_distrib)

lemma mod8_small: "unat (n :: u64) < 8 \<Longrightarrow> n mod 8 = n"
  by (simp add: word_unat_eq_iff unat_mod_distrib)

lemma unat_sub7: "7 \<le> unat (n :: u64) \<Longrightarrow> unat (n - 7) = unat n - 7"
  by (subst unat_sub) (simp_all add: word_le_nat_alt)

lemma div8_shift:
  assumes "7 \<le> unat (n :: u64)" "unat n + 1 < 2 ^ 64"
  shows "(n + 1) div 8 = (n - 7) div 8 + 1"
proof -
  define k where "k = unat n - 7"
  then have n: "unat n = k + 7" using assms(1) by simp
  have "unat ((n + 1) div 8) = (unat n + 1) div 8"
    by (simp add: unat_div_distrib unat_succ [OF assms(2)])
  also have "\<dots> = k div 8 + 1" unfolding n by simp
  finally have e: "unat ((n + 1) div 8) = k div 8 + 1" .
  have k: "unat ((n - 7) div 8) = k div 8"
    by (simp add: unat_div_distrib unat_sub7 [OF assms(1)] k_def)
  have "k div 8 + 1 \<le> unat n + 1" using n by simp
  then have "unat ((n - 7) div 8) + 1 < 2 ^ 64" using assms(2) k by simp
  then have "unat ((n - 7) div 8 + 1) = unat ((n - 7) div 8) + 1" by (rule unat_succ)
  with e k show ?thesis by (simp add: word_unat_eq_iff)
qed

lemma mod8_shift:
  assumes "7 \<le> unat (n :: u64)" "unat n + 1 < 2 ^ 64"
  shows "(n + 1) mod 8 = (n - 7) mod 8"
proof -
  define k where "k = unat n - 7"
  then have n: "unat n = k + 7" using assms(1) by simp
  have "unat ((n + 1) mod 8) = (unat n + 1) mod 8"
    by (simp add: unat_mod_distrib unat_succ [OF assms(2)])
  also have "\<dots> = k mod 8" unfolding n by simp
  also have "\<dots> = unat ((n - 7) mod 8)"
    by (simp add: unat_mod_distrib unat_sub7 [OF assms(1)] k_def)
  finally show ?thesis by (simp add: word_unat_eq_iff)
qed

lemma of_nat_remaining:
  "w < 8 \<Longrightarrow> (n :: u64) + 1 - of_nat (8 - w) = n - of_nat (8 - Suc w)"
proof -
  assume "w < 8"
  then have "8 - w = Suc (8 - Suc w)" by simp
  then show ?thesis by (simp del: diff_Suc_Suc)
qed

lemma discard_zero: "discard 0 s = (Inr (), s)"
  by (simp add: discard_def)

lemma discard_within:
  "n \<noteq> 0 \<Longrightarrow> unat n < 8 - word_index s \<Longrightarrow>
   discard n s = (Inr (), s\<lparr>word_index := word_index s + unat n\<rparr>)"
  by (simp add: discard_def)

lemma discard_beyond:
  assumes "n \<noteq> 0" "\<not> unat n < 8 - word_index s"
  shows "discard n s = discard_blocks (n - of_nat (8 - word_index s)) s"
proof (cases "0 < (n - of_nat (8 - word_index s)) div 8")
  case True
  with assms show ?thesis
    by (simp add: discard_def discard_blocks_def Let_def split: prod.split sum.split)
next
  case False
  then have z: "(n - of_nat (8 - word_index s)) div 8 = 0" by (simp add: word_neq_0_conv [symmetric])
  have t: "s\<lparr>word_index := 8, block_counter := block_counter s + 0\<rparr> = s\<lparr>word_index := 8\<rparr>"
    by simp
  from assms show ?thesis
    unfolding discard_def discard_blocks_def Let_def z t
    by (simp split: prod.split sum.split)
qed

lemma discard_blocks_index: "discard_blocks m (s\<lparr>word_index := i\<rparr>) = discard_blocks m s"
  by (simp add: discard_blocks_def)

lemma discard_step_buffered:
  assumes w: "word_index s < 8" and n: "unat n + 1 < 2 ^ 64"
  shows "discard (n + 1) s = discard n (s\<lparr>word_index := Suc (word_index s)\<rparr>)"
proof -
  let ?s1 = "s\<lparr>word_index := Suc (word_index s)\<rparr>"
  have nz: "n + 1 \<noteq> 0" and u: "unat (n + 1) = unat n + 1"
    using n by (rule succ_nonzero, rule unat_succ)
  show ?thesis
  proof (cases "unat n + 1 < 8 - word_index s")
    case True
    then have l: "unat (n + 1) < 8 - word_index s" using u by simp
    show ?thesis
    proof (cases "n = 0")
      case True
      then show ?thesis using discard_within [OF nz l] by (simp add: discard_zero)
    next
      case False
      moreover from True have "unat n < 8 - word_index ?s1" by simp
      ultimately have "discard n ?s1 = (Inr (), ?s1\<lparr>word_index := word_index ?s1 + unat n\<rparr>)"
        by (rule discard_within)
      then show ?thesis using discard_within [OF nz l] u by simp
    qed
  next
    case False
    then have l: "\<not> unat (n + 1) < 8 - word_index s" using u by simp
    note d = discard_beyond [OF nz l]
    show ?thesis
    proof (cases "n = 0")
      case True
      with False w have "word_index s = 7" by simp
      then have "(0::u64) + 1 - of_nat (8 - word_index s) = 0" by simp
      then show ?thesis using d unfolding True
        by (simp add: discard_zero discard_blocks_def \<open>word_index s = 7\<close>)
    next
      case nn: False
      from False have f: "\<not> unat n < 8 - word_index ?s1" by simp
      have "discard n ?s1 = discard_blocks (n - of_nat (8 - word_index ?s1)) ?s1"
        using nn f by (rule discard_beyond)
      then show ?thesis unfolding d
        by (simp add: of_nat_remaining [OF w] discard_blocks_index)
    qed
  qed
qed

lemma discard_index8': "8 \<le> word_index t \<Longrightarrow> n \<noteq> 0 \<Longrightarrow> discard n t = discard_blocks n t"
  using discard_beyond [of n t] by simp

lemma discard_blocks_stale:
  "fst (discard_blocks m (s\<lparr>buffer := b\<rparr>)) = fst (discard_blocks m s) \<and>
   agree (snd (discard_blocks m (s\<lparr>buffer := b\<rparr>))) (snd (discard_blocks m s))"
proof -
  have u: "s\<lparr>buffer := b, word_index := 8, block_counter := c\<rparr> =
           s\<lparr>word_index := 8, block_counter := c\<rparr>\<lparr>buffer := b\<rparr>" for c
    by simp
  show ?thesis
    unfolding discard_blocks_def
    by (simp add: u refill_buffer_stale agree_def split: prod.split sum.split)
qed

lemma discard_step_refill:
  assumes w: "8 \<le> word_index s" and c: "block_counter s + 1 \<noteq> 0" and n: "unat n + 1 < 2 ^ 64"
    and ok: "fst (discard n (s\<lparr>buffer := b, word_index := 1, block_counter := block_counter s + 1\<rparr>)) = Inr ()"
    and b: "b = permute_words (build_state (key s) (nonce s) (block_counter s))"
  shows "fst (discard (n + 1) s) = Inr () \<and>
         agree (snd (discard (n + 1) s))
           (snd (discard n (s\<lparr>buffer := b, word_index := 1, block_counter := block_counter s + 1\<rparr>)))"
proof -
  let ?s1 = "s\<lparr>buffer := b, word_index := 1, block_counter := block_counter s + 1\<rparr>"
  have nz: "n + 1 \<noteq> 0" and u: "unat (n + 1) = unat n + 1"
    using n by (rule succ_nonzero, rule unat_succ)
  note d = discard_index8' [OF w nz]
  have rf: "refill_buffer (s\<lparr>word_index := 8\<rparr>) = (Inr (), ?s1\<lparr>word_index := 0\<rparr>)"
    using c by (simp add: refill_buffer_eq b)
  show ?thesis
  proof (cases "unat n < 7")
    case True
    then have s: "(n + 1) div 8 = 0" "(n + 1) mod 8 = n + 1"
      using u by (simp_all add: div8_small mod8_small)
    have d': "discard (n + 1) s = (Inr (), ?s1\<lparr>word_index := unat n + 1\<rparr>)"
      unfolding d discard_blocks_def s using nz rf u by simp
    show ?thesis
    proof (cases "n = 0")
      case True
      then show ?thesis unfolding d' by (simp add: discard_zero agree_def)
    next
      case False
      moreover from True have "unat n < 8 - word_index ?s1" by simp
      ultimately have "discard n ?s1 = (Inr (), ?s1\<lparr>word_index := word_index ?s1 + unat n\<rparr>)"
        by (rule discard_within)
      then show ?thesis unfolding d' by (simp add: agree_def)
    qed
  next
    case False
    then have 7: "7 \<le> unat n" by simp
    then have nn: "n \<noteq> 0" by auto
    note s = div8_shift [OF 7 n] mod8_shift [OF 7 n]
    define fb where "fb = (n - 7) div 8"
    define rm where "rm = (n - 7) mod 8"
    from 7 have "\<not> unat n < 8 - word_index ?s1" by simp
    with nn have "discard n ?s1 = discard_blocks (n - of_nat (8 - word_index ?s1)) ?s1"
      by (rule discard_beyond)
    then have d1: "discard n ?s1 = discard_blocks (n - 7) ?s1" by simp
    have no: "\<not> (fb > 0 \<and> block_counter s + 1 > max_u64 - fb)"
      using ok unfolding d1 discard_blocks_def fb_def by (auto split: if_splits)
    have uc: "unat (block_counter s + 1) = unat (block_counter s) + 1"
      using c by (simp add: unatSuc add.commute)
    have ufb: "unat (fb + 1) = unat fb + 1"
    proof (rule unat_succ)
      have "unat fb \<le> unat n - 7" unfolding fb_def by (simp add: unat_div_distrib unat_sub7 [OF 7])
      then show "unat fb + 1 < 2 ^ 64" using n 7 by simp
    qed
    have um: "unat max_u64 = 2 ^ 64 - 1" by (simp add: max_u64_def)
    have lem: "x \<le> max_u64" for x
      using unsigned_less [of x, where 'a=nat] by (simp add: max_u64_def word_le_nat_alt)
    have fits: "unat (block_counter s) + unat (fb + 1) \<le> 2 ^ 64 - 1"
    proof (cases "0 < fb")
      case True
      with no have "block_counter s + 1 \<le> max_u64 - fb" by simp
      then have "unat (block_counter s) + 1 \<le> 2 ^ 64 - 1 - unat fb"
        by (simp add: word_le_nat_alt uc unat_sub [OF lem] um)
      then show ?thesis using ufb by simp
    next
      case False
      then have "fb = 0" by (simp add: word_neq_0_conv [symmetric])
      moreover have "unat (block_counter s + 1) < 2 ^ 64"
        using unsigned_less [of "block_counter s + 1", where 'a=nat] by simp
      ultimately show ?thesis using uc by simp
    qed
    have pos: "0 < fb + 1" using ufb by (simp add: word_less_nat_alt)
    have no2: "\<not> block_counter s > max_u64 - (fb + 1)"
      using fits by (simp add: word_less_nat_alt unat_sub [OF lem] um)
    let ?x = "s\<lparr>word_index := 8, block_counter := block_counter s + (fb + 1)\<rparr>"
    have no': "\<not> (0 < fb \<and> max_u64 - fb < block_counter ?s1)" using no by simp
    have no2': "\<not> (0 < fb + 1 \<and> max_u64 - (fb + 1) < block_counter s)" using no2 by simp
    have st: "?s1\<lparr>word_index := 8, block_counter := block_counter ?s1 + fb\<rparr> = ?x\<lparr>buffer := b\<rparr>"
      by (simp add: ac_simps)
    have e: "discard_blocks (n - 7) ?s1 =
      (if rm \<noteq> 0
        then (case refill_buffer ?x of
                (Inl e, s) \<Rightarrow> (Inl e, s)
              | (Inr u, s) \<Rightarrow> (Inr (), s\<lparr>word_index := unat rm\<rparr>))
        else (Inr (), ?x\<lparr>buffer := b\<rparr>))"
      unfolding discard_blocks_def fb_def [symmetric] rm_def [symmetric] if_not_P [OF no'] st
        refill_buffer_stale ..
    have e': "discard_blocks (n + 1) s =
      (if rm \<noteq> 0
        then (case refill_buffer ?x of
                (Inl e, s) \<Rightarrow> (Inl e, s)
              | (Inr u, s) \<Rightarrow> (Inr (), s\<lparr>word_index := unat rm\<rparr>))
        else (Inr (), ?x))"
      unfolding discard_blocks_def s fb_def [symmetric] rm_def [symmetric] if_not_P [OF no2'] ..
    show ?thesis
    proof (cases "rm = 0")
      case True
      then show ?thesis unfolding d d1 e e' by (simp add: agree_def)
    next
      case False
      with ok show ?thesis unfolding d d1 e e' by simp
    qed
  qed
qed

lemma operator_call_agree: "agree t1 t2 \<Longrightarrow> operator_call t1 = operator_call t2"
  by (erule agree_cases) (simp_all add: operator_call_stale)

lemma discard_then_call_step:
  assumes call: "operator_call s = (Inr v1, s1)" and n: "unat n + 1 < 2 ^ 64"
    and rest: "discard_then_call n s1 = (Inr v, s')"
  shows "discard_then_call (n + 1) s = (Inr v, s')"
proof (cases "word_index s < 8")
  case True
  with call have "s1 = s\<lparr>word_index := Suc (word_index s)\<rparr>"
    by (simp add: operator_call_buffered)
  with rest show ?thesis
    unfolding discard_then_call_def discard_step_buffered [OF True n] by simp
next
  case False
  then have w: "8 \<le> word_index s" by simp
  let ?b = "permute_words (build_state (key s) (nonce s) (block_counter s))"
  have c: "block_counter s + 1 \<noteq> 0"
    using call w by (auto simp add: operator_call_exhausted)
  with call w have s1: "s1 = s\<lparr>buffer := ?b, word_index := 1, block_counter := block_counter s + 1\<rparr>"
    by (simp add: operator_call_refill)
  obtain r t where d: "discard n s1 = (r, t)" by (cases "discard n s1")
  with rest have r: "r = Inr ()" and t: "operator_call t = (Inr v, s')"
    by (cases r; simp add: discard_then_call_def)+
  from d r have ok: "fst (discard n (s\<lparr>buffer := ?b, word_index := 1, block_counter := block_counter s + 1\<rparr>)) = Inr ()"
    unfolding s1 by simp
  from discard_step_refill [OF w c n ok refl]
  have f: "fst (discard (n + 1) s) = Inr ()" and a: "agree (snd (discard (n + 1) s)) t"
    using d unfolding s1 by simp_all
  obtain r' t' where d': "discard (n + 1) s = (r', t')" by (cases "discard (n + 1) s")
  with f a have "r' = Inr ()" "agree t' t" by simp_all
  then show ?thesis using d' t by (simp add: discard_then_call_def operator_call_agree)
qed

lemma keep_last_discard:
  "k < 2 ^ 64 \<Longrightarrow> keep_last k s = (Inr v, s') \<Longrightarrow>
   discard_then_call (of_nat k) s = (Inr v, s')"
proof (induction k arbitrary: s)
  case 0
  then show ?case by (simp add: discard_then_call_def discard_zero)
next
  case (Suc k)
  obtain r s1 where c: "operator_call s = (r, s1)" by (cases "operator_call s")
  with Suc.prems(2) obtain v1 where r: "r = Inr v1" and kl: "keep_last k s1 = (Inr v, s')"
    by (cases r) simp_all
  from Suc.prems(1) have k: "k < 2 ^ 64" by simp
  then have u: "unat (of_nat k :: u64) = k" by (simp add: unat_of_nat)
  have "discard_then_call (of_nat k) s1 = (Inr v, s')" using Suc.IH [OF k kl] .
  moreover have "unat (of_nat k :: u64) + 1 < 2 ^ 64" using u Suc.prems(1) by simp
  ultimately have "discard_then_call (of_nat k + 1) s = (Inr v, s')"
    using c r by (intro discard_then_call_step) simp_all
  then show ?case by (simp add: add.commute)
qed

text \<open>
  Claim C8.  For every reachable state and every \<open>n\<close>: when \<open>n + 1\<close> calls of
  \<open>operator()\<close> all return (the block counter does not wrap on the way), then
  \<open>discard(n)\<close> followed by one call returns as well, yields the word the last of the
  \<open>n + 1\<close> calls yields, and leaves the generator in the very same state, buffer
  included.
\<close>

theorem discard_equivalence:
  assumes "reachable s" and "keep_last (unat n) s = (Inr v, s')"
  shows "discard_then_call n s = (Inr v, s')"
proof -
  have "unat n < 2 ^ 64" using unsigned_less [of n, where 'a=nat] by simp
  from keep_last_discard [OF this assms(2)] show ?thesis by simp
qed

theorem discard_equivalence_witness:
  "discard_then_call 10 (projr (StoneRNG_key_nonce (replicate 8 0) [0, 0] 0)) =
     (Inr (block_u64 (permute_words (build_state (replicate 8 0) [0, 0] 1)) 2),
      \<lparr>key = replicate 8 0, nonce = [0, 0], block_counter = 2,
        buffer = permute_words (build_state (replicate 8 0) [0, 0] 1), word_index = 3\<rparr>)"
proof -
  let ?g = "projr (StoneRNG_key_nonce (replicate 8 0) [0, 0] 0)"
  have g: "StoneRNG_key_nonce (replicate 8 0) [0, 0] 0 = Inr ?g"
    by (simp add: StoneRNG_key_nonce_eq)
  have r: "reachable ?g" by (rule from_key_nonce [OF _ _ g]) simp_all
  have u: "unat (10 :: u64) = 10" by simp
  have k: "keep_last (unat (10 :: u64)) ?g =
     (Inr (block_u64 (permute_words (build_state (replicate 8 0) [0, 0] 1)) 2),
      \<lparr>key = replicate 8 0, nonce = [0, 0], block_counter = 2,
        buffer = permute_words (build_state (replicate 8 0) [0, 0] 1), word_index = 3\<rparr>)"
    unfolding u
    by (simp add: StoneRNG_key_nonce_eq eval_nat_numeral operator_call_def refill_buffer_eq)
  from discard_equivalence [OF r k] show ?thesis .
qed

text \<open>
  Claim C3 says that once the block counter wraps to 0 every further operation fails.
  The code throws once, in the \<open>refill_buffer\<close> that wraps the counter, and keeps no
  record of it.  A generator constructed with the counter \<open>2^64 - 2\<close> hands out the
  eight words of that block; the ninth call generates block \<open>2^64 - 1\<close>, wraps the
  counter and throws; the tenth call returns the first word of block \<open>2^64 - 1\<close>;
  \<open>discard(7)\<close> returns; the next call refills from counter 0 and returns the first
  word of block 0 of the same key and nonce; \<open>unbiased(5, 5)\<close> returns 5.  The list
  below is what the operations from the ninth call on yield.
\<close>

theorem exhausted_generator_goes_on:
  "drop 8 (outputs [Call, Call, Call, Call, Call, Call, Call, Call, Call, Call, Discard 7, Call, Unbiased 5 5]
      (projr (StoneRNG_key_nonce (replicate 8 0) [0, 0] 0xFFFFFFFFFFFFFFFE))) =
     [Inl Exhausted,
      Inr (Some (block_u64 (permute_words (build_state (replicate 8 0) [0, 0] 0xFFFFFFFFFFFFFFFF)) 0)),
      Inr None,
      Inr (Some (block_u64 (permute_words (build_state (replicate 8 0) [0, 0] 0)) 0)),
      Inr (Some 5)]"
proof -
  have wrap: "(18446744073709551616 :: u64) = 0" by simp
  show ?thesis
    by (simp add: StoneRNG_key_nonce_eq operator_call_def refill_buffer_eq discard_def Let_def
        unbiased_def max_u64_def wrap)
qed

lemma unbiased_first_accepted:
  assumes "lo < hi" "hi - lo \<noteq> max_u64" "operator_call s = (Inr value, s')"
    "value \<in> accepted lo hi r"
  shows "unbiased lo hi s = (Inr r, s')"
  using assms
  by (subst unbiased_def, subst unbiased_loop.simps) (auto simp add: accepted_def Let_def)

lemma unbiased_rejected:
  assumes "lo < hi" "hi - lo \<noteq> max_u64" "operator_call s = (Inr value, s')"
    "value > unbiased_limit lo hi"
  shows "unbiased lo hi s = unbiased lo hi s'"
  using assms
  by (subst (1 2) unbiased_def, subst unbiased_loop.simps) (auto simp add: Let_def)

lemma card_residue:
  assumes "0 < R" "k < R"
  shows "card {v :: nat. v \<le> q * R \<and> v mod R = k} = (if k = 0 then q + 1 else q)"
proof -
  let ?f = "\<lambda>j. j * R + k"
  have inj: "inj_on ?f A" for A using assms by (auto simp: inj_on_def)
  have "{v. v \<le> q * R \<and> v mod R = k} = ?f ` {j. j * R + k \<le> q * R}"
  proof (rule set_eqI, rule iffI)
    fix v assume "v \<in> {v. v \<le> q * R \<and> v mod R = k}"
    then have v: "v \<le> q * R" "v mod R = k" by simp_all
    have "v = (v div R) * R + k" using v(2) by (metis div_mult_mod_eq)
    with v(1) show "v \<in> ?f ` {j. j * R + k \<le> q * R}" by (intro image_eqI [where x = "v div R"]) simp_all
  next
    fix v assume "v \<in> ?f ` {j. j * R + k \<le> q * R}"
    then show "v \<in> {v. v \<le> q * R \<and> v mod R = k}" using assms by auto
  qed
  moreover have "{j. j * R + k \<le> q * R} = (if k = 0 then {..q} else {..<q})"
  proof (cases "k = 0")
    case True
    then show ?thesis using assms by auto
  next
    case False
    have "j * R + k \<le> q * R \<longleftrightarrow> j < q" for j
    proof
      assume a: "j * R + k \<le> q * R"
      show "j < q"
      proof (rule ccontr)
        assume "\<not> j < q"
        then have "q * R \<le> j * R" by simp
        with a False show False by simp
      qed
    next
      assume "j < q"
      then have "Suc j * R \<le> q * R" by (intro mult_le_mono1) simp
      then show "j * R + k \<le> q * R" using assms by simp
    qed
    with False show ?thesis by auto
  qed
  ultimately show ?thesis by (simp add: card_image [OF inj])
qed

lemma card_word_set:
  "card {v :: u64. P (unat v)} = card {n. n < 2 ^ 64 \<and> P n}"
proof -
  have "unat ` {v :: u64. P (unat v)} = {n. n < 2 ^ 64 \<and> P n}"
  proof (rule set_eqI, rule iffI)
    fix n assume "n \<in> unat ` {v :: u64. P (unat v)}"
    then show "n \<in> {n. n < 2 ^ 64 \<and> P n}"
      using unsigned_less [where 'a=nat and 'b=64] by auto
  next
    fix n assume "n \<in> {n. n < 2 ^ 64 \<and> P n}"
    then have "unat (of_nat n :: u64) = n" "P n" by (simp_all add: unat_of_nat)
    then show "n \<in> unat ` {v :: u64. P (unat v)}"
      by (intro image_eqI [where x = "of_nat n"]) simp_all
  qed
  moreover have "inj_on unat {v :: u64. P (unat v)}" by (simp add: inj_on_def word_unat_eq_iff)
  ultimately show ?thesis by (metis card_image)
qed

lemma accepted_card:
  assumes "lo < hi" "hi - lo \<noteq> max_u64" "lo \<le> r" "r \<le> hi"
  shows "card (accepted lo hi r) =
         (if r = lo then (2 ^ 64 - 1) div (unat hi - unat lo + 1) + 1
          else (2 ^ 64 - 1) div (unat hi - unat lo + 1))"
proof -
  define R where "R = unat hi - unat lo + 1"
  define q where "q = (2 ^ 64 - 1 :: nat) div R"
  define k where "k = unat r - unat lo"
  have lh: "unat lo < unat hi" using assms(1) by (simp add: word_less_nat_alt)
  have hb: "unat hi < 2 ^ 64" using unsigned_less [of hi, where 'a=nat] by simp
  have d: "unat (hi - lo) = unat hi - unat lo" using assms(1) by (simp add: unat_sub)
  have "unat (hi - lo) \<noteq> 2 ^ 64 - 1"
    using assms(2) by (simp add: word_unat_eq_iff max_u64_def)
  then have nf: "unat (hi - lo) + 1 < 2 ^ 64"
    using unsigned_less [of "hi - lo", where 'a=nat] by simp
  then have ur: "unat (unbiased_range lo hi) = R"
    unfolding unbiased_range_def R_def d [symmetric] by (rule unat_succ)
  have R: "0 < R" "R \<le> 2 ^ 64 - 1" using nf by (simp_all add: R_def d)
  have um: "unat max_u64 = 2 ^ 64 - 1" by (simp add: max_u64_def)
  have "unat (max_u64 mod unbiased_range lo hi) = (2 ^ 64 - 1) mod R"
    by (simp add: unat_mod_distrib ur um)
  moreover have "max_u64 mod unbiased_range lo hi \<le> max_u64"
    using unsigned_less [of "max_u64 mod unbiased_range lo hi", where 'a=nat]
    by (simp add: word_le_nat_alt um)
  ultimately have "unat (unbiased_limit lo hi) = (2 ^ 64 - 1) - (2 ^ 64 - 1) mod R"
    unfolding unbiased_limit_def by (simp add: unat_sub um)
  also have "\<dots> = q * R" unfolding q_def by (simp add: minus_mod_eq_div_mult)
  finally have ul: "unat (unbiased_limit lo hi) = q * R" .
  have k: "k < R" "unat r = unat lo + k"
    using assms(3,4) lh by (simp_all add: k_def R_def word_le_nat_alt)
  have res: "lo + v mod unbiased_range lo hi = r \<longleftrightarrow> unat v mod R = k" for v
  proof -
    have m: "unat (v mod unbiased_range lo hi) = unat v mod R" by (simp add: unat_mod_distrib ur)
    from mod_less_divisor [OF R(1), of "unat v"]
    have "unat v mod R \<le> unat hi - unat lo" unfolding R_def by arith
    then have "unat lo + unat v mod R < 2 ^ 64" using hb lh by arith
    then have "unat lo + unat (v mod unbiased_range lo hi) < 2 ^ LENGTH(64)"
      unfolding m by simp
    then have "unat (lo + v mod unbiased_range lo hi) = unat lo + unat (v mod unbiased_range lo hi)"
      unfolding unat_add_lem .
    then show ?thesis using k(2) unfolding m by (simp add: word_unat_eq_iff)
  qed
  have "accepted lo hi r = {v. unat v \<le> q * R \<and> unat v mod R = k}"
    by (simp add: accepted_def res word_less_nat_alt ul not_less)
  then have "card (accepted lo hi r) = card {n. n < 2 ^ 64 \<and> n \<le> q * R \<and> n mod R = k}"
    by (simp add: card_word_set [where P = "\<lambda>n. n \<le> q * R \<and> n mod R = k"])
  also have "{n. n < 2 ^ 64 \<and> n \<le> q * R \<and> n mod R = k} = {n. n \<le> q * R \<and> n mod R = k}"
  proof -
    have "q * R \<le> 2 ^ 64 - 1" unfolding q_def by simp
    then have "n \<le> q * R \<Longrightarrow> n < 2 ^ 64" for n by simp
    then show ?thesis by auto
  qed
  also have "card \<dots> = (if k = 0 then q + 1 else q)" using R(1) k(1) by (rule card_residue)
  also have "k = 0 \<longleftrightarrow> r = lo" using k(2) by (auto simp add: word_unat_eq_iff)
  finally show ?thesis by (simp add: q_def R_def)
qed

text \<open>
  Claim C2 says that every result in \<open>[lo, hi]\<close> is produced by equally many accepted
  keystream words.  The loop accepts every word \<open>\<le> limit\<close>, and
  \<open>limit = q * range\<close> with \<open>q = MAX64 div range\<close>: these are \<open>q * range + 1\<close>
  words, of which \<open>q + 1\<close> give \<open>lo\<close> and \<open>q\<close> give each other result
  (\<open>accepted_card\<close>).  For \<open>unbiased(0, 2)\<close> all \<open>2^64\<close> words are accepted and the
  three results are produced by the following numbers of words.
\<close>

theorem unbiased_is_biased:
  "card (accepted 0 2 0) = 6148914691236517206 \<and>
   card (accepted 0 2 1) = 6148914691236517205 \<and>
   card (accepted 0 2 2) = 6148914691236517205"
  by (simp add: accepted_card max_u64_def)

section \<open>Properties of the key derivation\<close>

lemma length_finalize_words [simp]: "length (finalize_words s t) = 16"
  by (simp add: finalize_words_def Let_def)

lemma length_StoneHash_finalize [simp]: "length (StoneHash_finalize bytes) = 16"
  by (simp add: StoneHash_finalize_def Let_def split: prod.split)

lemma length_StoneHash_hash256 [simp]: "length (StoneHash_hash256 bytes) = 8"
  by (simp add: StoneHash_hash256_def)

lemma length_le_bytes32 [simp]: "length (le_bytes32 w) = 4"
  by (simp add: le_bytes32_def)

lemma length_block_bytes: "length (block_bytes b) = 4 * length b"
  by (induction b) (simp_all add: block_bytes_def)

lemma mix_pair_ok:
  "a < length memory \<Longrightarrow> b < length memory \<Longrightarrow>
   \<exists>memory'. mix_pair counter a b memory = Inr memory' \<and> length memory' = length memory"
  by (simp add: mix_pair_def Let_def)

lemma k_loop_ok:
  "start + 2 * span \<le> length memory \<Longrightarrow>
   \<exists>memory'. k_loop span start k counter memory = Inr memory' \<and> length memory' = length memory"
proof (induction span start k counter memory rule: k_loop.induct)
  case (1 span start k counter memory)
  show ?case
  proof (cases "k < span")
    case True
    with "1.prems" have "start + k < length memory" "start + k + span < length memory" by simp_all
    from mix_pair_ok [OF this] obtain memory' where
      m: "mix_pair counter (start + k) (start + k + span) memory = Inr memory'"
      and l: "length memory' = length memory" by blast
    from "1.IH" [OF True m] "1.prems" l obtain memory'' where
      "k_loop span start (k + 1) counter memory' = Inr memory''" "length memory'' = length memory"
      by auto
    with True m show ?thesis by (subst k_loop.simps) simp
  next
    case False
    then show ?thesis by (subst k_loop.simps) simp
  qed
qed

lemma next_multiple:
  fixes d :: nat
  assumes "d dvd n" "d dvd start" "start < n"
  shows "start + d \<le> n"
proof -
  from assms(1,2) obtain q p where n: "n = d * q" and s: "start = d * p" by (auto elim!: dvdE)
  with assms(3) have "p < q" by simp
  then have "d * (p + 1) \<le> d * q" by (intro mult_le_mono2) simp
  then show ?thesis by (simp add: n s)
qed

lemma start_loop_ok:
  "length memory = n \<Longrightarrow> 2 * 2 ^ j dvd n \<Longrightarrow> 2 * 2 ^ j dvd start \<Longrightarrow>
   \<exists>memory'. start_loop n j start counter memory = Inr memory' \<and> length memory' = n"
proof (induction n j start counter memory rule: start_loop.induct)
  case (1 n j start counter memory)
  show ?case
  proof (cases "start < n")
    case True
    from next_multiple [OF "1.prems"(2,3) True] "1.prems"(1)
    have "start + 2 * 2 ^ j \<le> length memory" by simp
    from k_loop_ok [OF this] obtain memory' where
      k: "k_loop (2 ^ j) start 0 counter memory = Inr memory'" and l: "length memory' = n"
      using "1.prems"(1) by auto
    have "2 * 2 ^ j dvd start + 2 * 2 ^ j" using "1.prems"(3) by simp
    from "1.IH" [OF True k l "1.prems"(2) this] obtain memory'' where
      "start_loop n j (start + 2 * 2 ^ j) counter memory' = Inr memory''" "length memory'' = n"
      by auto
    with True k show ?thesis by (subst start_loop.simps) simp
  next
    case False
    with "1.prems"(1) show ?thesis by (subst start_loop.simps) simp
  qed
qed

lemma span_loop_ok:
  "length memory = 2 ^ m \<Longrightarrow>
   \<exists>memory'. span_loop (2 ^ m) j counter memory = Inr memory' \<and> length memory' = 2 ^ m"
proof (induction "2 ^ m :: nat" j counter memory rule: span_loop.induct)
  case (1 j counter memory)
  show ?case
  proof (cases "(2 :: nat) ^ j < 2 ^ m")
    case True
    then have "j < m" by simp
    then have "(2 :: nat) ^ Suc j dvd 2 ^ m" by (intro le_imp_power_dvd) simp
    then have "(2 :: nat) * 2 ^ j dvd 2 ^ m" by simp
    from start_loop_ok [OF "1.prems" this, of 0] obtain memory' where
      s: "start_loop (2 ^ m) j 0 counter memory = Inr memory'" and l: "length memory' = 2 ^ m"
      by auto
    from "1.hyps" [OF True s l] obtain memory'' where
      "span_loop (2 ^ m) (j + 1) counter memory' = Inr memory''" "length memory'' = 2 ^ m"
      by auto
    with True s show ?thesis by (subst span_loop.simps) simp
  next
    case False
    with "1.prems" show ?thesis by (subst span_loop.simps) simp
  qed
qed

lemma time_loop_ok:
  "length memory = 2 ^ m \<Longrightarrow>
   \<exists>memory'. time_loop t (2 ^ m) counter memory = Inr memory' \<and> length memory' = 2 ^ m"
proof (induction t arbitrary: counter memory)
  case 0
  then show ?case by simp
next
  case (Suc t)
  from span_loop_ok [OF Suc.prems] obtain memory' where
    s: "span_loop (2 ^ m) 0 (counter + GOLDEN_GAMMA) memory = Inr memory'"
    and l: "length memory' = 2 ^ m" by blast
  from Suc.IH [OF l] s show ?case by (simp add: Let_def)
qed

lemma compress_loop_ok:
  "n \<le> length memory \<Longrightarrow> \<exists>acc'. compress_loop n i acc memory = Inr acc'"
proof (induction n i acc memory rule: compress_loop.induct)
  case (1 n i acc memory)
  show ?case
  proof (cases "i < n")
    case True
    with "1.prems" have l: "i < length memory" by simp
    from "1.IH" [OF True l refl refl refl refl refl refl "1.prems"] True l
    show ?thesis by (subst compress_loop.simps) (simp add: Let_def)
  next
    case False
    then show ?thesis by (subst compress_loop.simps) simp
  qed
qed

lemma StoneKey_derive_ok:
  "\<exists>key. StoneKey_derive password context m_cost t_cost = Inr key \<and> length key = 8"
proof -
  let ?n = "2 ^ unat m_cost :: nat"
  let ?memory = "map (fill_block password context) [0..<?n]"
  let ?counter = "GOLDEN_GAMMA XOR
            block_u64 (StoneHash_finalize
              (string_bytes ''StoneHash::v2::counter_seed'' @ string_bytes password)) 0"
  have "length ?memory = ?n" by simp
  from time_loop_ok [OF this] obtain memory' where
    t: "time_loop (unat t_cost) ?n ?counter ?memory = Inr memory'" and l: "length memory' = ?n"
    by blast
  from l have "?n \<le> length memory'" by simp
  from compress_loop_ok [OF this] obtain acc where
    c: "compress_loop ?n 0 zero_block memory' = Inr acc" by blast
  show ?thesis
    unfolding StoneKey_derive_def Let_def t using c by simp
qed

text \<open>
  Claim C4, amended.  \<open>StoneKey\<close> enforces the upper bound of the memory cost only: it
  rejects with an invalid-argument error exactly when \<open>m_cost > 26\<close>, \<open>t_cost = 0\<close> or
  the password is empty, and for every other call (in particular for \<open>m_cost < 10\<close>) it
  returns a key of 32 bytes; no block index of the arena is out of bounds on the way.
\<close>

theorem StoneKey_checks:
  "(StoneKey password context m_cost t_cost = Inl Invalid_Argument \<longleftrightarrow>
      m_cost > 26 \<or> t_cost = 0 \<or> password = []) \<and>
   (\<not> (m_cost > 26 \<or> t_cost = 0 \<or> password = []) \<longrightarrow>
      (\<exists>key. StoneKey password context m_cost t_cost = Inr key \<and> length (block_bytes key) = 32))"
proof -
  from StoneKey_derive_ok [of password "context" m_cost t_cost] obtain key where
    "StoneKey_derive password context m_cost t_cost = Inr key" "length key = 8" by blast
  then show ?thesis by (auto simp add: StoneKey_def length_block_bytes)
qed

theorem StoneKey_checks_witness:
  "\<exists>key. StoneKey ''correct horse battery staple'' ''example.com'' 10 1 = Inr key \<and>
         length (block_bytes key) = 32"
  using StoneKey_checks [of "''correct horse battery staple''" "''example.com''" 10 1] by simp

text \<open>Claim C4 as stated fails: a memory cost below 10 is not rejected.\<close>

theorem StoneKey_accepts_low_m_cost:
  "StoneKey ''correct horse battery staple'' ''example.com'' 9 1 \<noteq> Inl Invalid_Argument \<and>
   StoneKey ''correct horse battery staple'' ''example.com'' 0 1 \<noteq> Inl Invalid_Argument"
proof -
  have "StoneKey_derive ''correct horse battery staple'' ''example.com'' m 1 \<noteq> Inl Invalid_Argument" for m
    using StoneKey_derive_ok [of "''correct horse battery staple''" "''example.com''" m 1] by auto
  then show ?thesis by (simp add: StoneKey_def)
qed

section \<open>Properties of the password composer\<close>

lemma decimal_small: "n < 10 \<Longrightarrow> decimal n = [digit_char n]"
  by (subst decimal.simps) simp

lemma decimal_large: "\<not> n < 10 \<Longrightarrow> decimal n = decimal (n div 10) @ [digit_char (n mod 10)]"
  by (subst decimal.simps) simp

lemma c_str_empty: "c_str (NUL # s) = []"
  by (simp add: c_str_def)

lemma c_str_flag: "c_str (if b then ''1'' else ''0'') = (if b then ''1'' else ''0'')"
  by (simp add: c_str_def NUL_def)

lemma context_string_eq:
  "context_string V U S L upper lower digits symbols =
     ''StonePassword_v1.0'' @ to_string V @ [NUL] @ U @ [NUL] @ S @ [NUL] @
     ''len:'' @ to_string L @
     spec_flag upper @ spec_flag lower @ spec_flag digits @ spec_flag symbols"
  by (simp add: context_string_def Let_def c_str_empty c_str_flag spec_flag_def)
     (simp add: c_str_def NUL_def)

text \<open>
  Claim C1 says that the context string is the specification's byte string.  In the
  source the first literal and the four label literals are read through
  \<open>const char*\<close>: \<open>std::string("StonePassword_v1.0\0")\<close> stops before the NUL, and
  \<open>+ "\0upper:"\<close> (as the other three labels) appends nothing, since the literal starts
  with NUL.  For every input the context is
  \<open>"StonePassword_v1.0" V "\0" U "\0" S "\0" "len:" L b b b b\<close> (\<open>context_string_eq\<close>);
  here it is evaluated at one input, next to the specification's string.
\<close>

theorem context_string_drops_labels:
  "context_string 1 ''alice'' ''github.com'' 20 True True True True =
     ''StonePassword_v1.01'' @ [NUL] @ ''alice'' @ [NUL] @ ''github.com'' @ [NUL] @ ''len:201111'' \<and>
   spec_context 1 ''alice'' ''github.com'' 20 True True True True =
     ''StonePassword_v1.0'' @ [NUL] @ ''1'' @ [NUL] @ ''alice'' @ [NUL] @ ''github.com'' @ [NUL] @
     ''len:20'' @ [NUL] @ ''upper:1'' @ [NUL] @ ''lower:1'' @ [NUL] @ ''digits:1'' @ [NUL] @ ''symbols:1'' \<and>
   context_string 1 ''alice'' ''github.com'' 20 True True True True \<noteq>
   spec_context 1 ''alice'' ''github.com'' 20 True True True True"
proof -
  have d: "to_string 1 = ''1''" "to_string 20 = ''20''"
    by (simp_all add: to_string_def decimal_small decimal_large digit_char_def)
  show ?thesis
    by (simp add: context_string_eq spec_context_def spec_flag_def d NUL_def)
qed

lemma operator_call_error: "operator_call s = (Inl e, s') \<Longrightarrow> e = Exhausted"
  by (auto simp add: operator_call_def refill_buffer_def Let_def split: if_splits)

lemma unbiased_loop_post:
  "(case unbiased_loop lo r l s of
      (Inl e, s') \<Rightarrow> e = Exhausted
    | (Inr v, s') \<Rightarrow> \<exists>w. v = lo + w mod r)"
proof (induction lo r l s rule: unbiased_loop.induct)
  case (1 lo r l s)
  obtain res s1 where c: "operator_call s = (res, s1)" by (cases "operator_call s")
  show ?case
  proof (cases res)
    case (Inl e)
    with c operator_call_error [of s e s1] show ?thesis
      by (subst unbiased_loop.simps) simp
  next
    case (Inr v)
    show ?thesis
    proof (cases "v > l")
      case True
      from "1.IH" [OF c [symmetric] Inr True] c Inr True show ?thesis
        by (subst unbiased_loop.simps) simp
    next
      case False
      with c Inr show ?thesis by (subst unbiased_loop.simps) auto
    qed
  qed
qed

lemma mod_succ_le:
  fixes w hi :: u64
  assumes "hi \<noteq> max_u64"
  shows "w mod (hi + 1) \<le> hi"
proof -
  have "unat hi \<noteq> 2 ^ 64 - 1" using assms by (simp add: word_unat_eq_iff max_u64_def)
  then have "unat hi + 1 < 2 ^ 64" using unsigned_less [of hi, where 'a=nat] by simp
  then have u: "unat (hi + 1) = unat hi + 1" by (simp add: unat_word_ariths)
  have "unat (w mod (hi + 1)) = unat w mod (unat hi + 1)" by (simp add: unat_mod_distrib u)
  also have "\<dots> < unat hi + 1" by simp
  finally show ?thesis by (simp add: word_le_nat_alt)
qed

lemma unbiased_zero_post:
  "(case unbiased 0 hi s of
      (Inl e, s') \<Rightarrow> e = Exhausted
    | (Inr v, s') \<Rightarrow> v \<le> hi)"
proof (cases "hi = 0")
  case True
  then show ?thesis by (simp add: unbiased_def)
next
  case nz: False
  show ?thesis
  proof (cases "hi = max_u64")
    case True
    obtain res s1 where c: "operator_call s = (res, s1)" by (cases "operator_call s")
    have "v \<le> max_u64" for v
      using unsigned_less [of v, where 'a=nat] by (simp add: max_u64_def word_le_nat_alt)
    with c True nz operator_call_error [of s _ s1] show ?thesis
      by (cases res) (auto simp add: unbiased_def)
  next
    case False
    let ?r = "unbiased_range 0 hi" and ?l = "unbiased_limit 0 hi"
    from nz False have u: "unbiased 0 hi s = unbiased_loop 0 ?r ?l s"
      by (simp add: unbiased_def Let_def word_neq_0_conv [symmetric])
    have r: "?r = hi + 1" by (simp add: unbiased_range_def)
    from unbiased_loop_post [of 0 ?r ?l s] mod_succ_le [OF False] show ?thesis
      unfolding u r by (auto split: prod.splits sum.splits)
  qed
qed

lemma unat_size_minus_1:
  assumes "0 < n"
  shows "unat (of_nat n - 1 :: u64) < n"
proof -
  define x :: u64 where "x = of_nat n"
  have ux: "unat x = n mod 2 ^ 64" by (simp add: x_def unat_of_nat)
  show ?thesis
  proof (cases "x = 0")
    case True
    then have "n mod 2 ^ 64 = 0" using ux by simp
    then have "2 ^ 64 dvd n" by (simp add: dvd_eq_mod_eq_0)
    with assms have "2 ^ 64 \<le> n" by (rule dvd_imp_le [rotated])
    moreover have "unat (x - 1) < 2 ^ 64"
      using unsigned_less [of "x - 1", where 'a=nat] by simp
    ultimately show ?thesis unfolding x_def by simp
  next
    case False
    then have "unat (x - 1) = unat x - 1" by (rule unat_minus_one)
    moreover have "0 < unat x" using False by (simp add: unat_gt_0)
    moreover have "unat x \<le> n" unfolding ux by simp
    ultimately show ?thesis unfolding x_def by simp
  qed
qed

lemma draw_post:
  assumes "characters \<noteq> []"
  shows "(case draw characters rng of
            (Inl e, rng') \<Rightarrow> e = Exhausted
          | (Inr c, rng') \<Rightarrow> c \<in> set characters)"
proof -
  let ?m = "of_nat (length characters) - 1 :: u64"
  obtain res s1 where u: "unbiased 0 ?m rng = (res, s1)" by (cases "unbiased 0 ?m rng")
  show ?thesis
  proof (cases res)
    case (Inl e)
    with u unbiased_zero_post [of ?m rng] show ?thesis by (simp add: draw_def)
  next
    case (Inr i)
    with u unbiased_zero_post [of ?m rng] have "i \<le> ?m" by simp
    then have "unat i \<le> unat ?m" by (simp add: word_le_nat_alt)
    also have "\<dots> < length characters" using assms by (intro unat_size_minus_1) simp
    finally show ?thesis using u Inr by (simp add: draw_def)
  qed
qed

lemma draw_empty:
  "(case draw [] rng of
      (Inl e, rng') \<Rightarrow> e = Exhausted \<or> e = Out_Of_Bounds
    | (Inr c, rng') \<Rightarrow> False)"
  using unbiased_zero_post [of "0 - 1" rng]
  by (auto simp add: draw_def split: prod.splits sum.splits)

lemma returns_or_exhausted_simps [simp]:
  "returns_or_exhausted Q (Inl e) \<longleftrightarrow> e = Exhausted"
  "returns_or_exhausted Q (Inr x) \<longleftrightarrow> Q x"
  by (simp_all add: returns_or_exhausted_def)

lemma returns_or_exhausted_bind:
  assumes "returns_or_exhausted Q m" "\<And>x. Q x \<Longrightarrow> returns_or_exhausted R (f x)"
  shows "returns_or_exhausted R (case m of Inl e \<Rightarrow> Inl e | Inr x \<Rightarrow> f x)"
  using assms by (cases m) simp_all

lemma returns_or_exhausted_mono:
  assumes "returns_or_exhausted Q m" "\<And>x. Q x \<Longrightarrow> R x"
  shows "returns_or_exhausted R m"
  using assms by (cases m) simp_all

lemma append_draw_post:
  assumes "characters \<noteq> []"
  shows "returns_or_exhausted (\<lambda>(p', rng'). \<exists>c \<in> set characters. p' = p @ [c])
           (append_draw characters (p, rng))"
  using draw_post [OF assms, of rng]
  by (auto simp add: append_draw_def split: prod.splits sum.splits)

lemma fill_loop_post':
  "all_chars \<noteq> [] \<Longrightarrow>
   returns_or_exhausted
     (\<lambda>(p', rng'). \<exists>q. p' = fst st @ q \<and> set q \<subseteq> set all_chars \<and> length p' = max L (length (fst st)))
     (fill_loop L all_chars st)"
proof (induction L all_chars st rule: fill_loop.induct)
  case (1 L all_chars p rng)
  show ?case
  proof (cases "length p < L")
    case True
    show ?thesis
    proof (cases "append_draw all_chars (p, rng)")
      case (Inl e)
      with append_draw_post [OF "1.prems", of p rng] True show ?thesis
        by (subst fill_loop.simps) simp
    next
      case (Inr x)
      with append_draw_post [OF "1.prems", of p rng]
      obtain c rng1 where x: "x = (p @ [c], rng1)" and c: "c \<in> set all_chars"
        by (cases x) auto
      have "returns_or_exhausted
         (\<lambda>(p', rng'). \<exists>q. p' = fst (p, rng) @ q \<and> set q \<subseteq> set all_chars \<and>
             length p' = max L (length (fst (p, rng))))
         (fill_loop L all_chars x)"
        by (rule returns_or_exhausted_mono [OF "1.IH" [OF True Inr "1.prems"]])
           (use c True in \<open>auto simp add: x max_def\<close>)
      with True Inr show ?thesis by (subst fill_loop.simps) simp
    qed
  next
    case False
    then show ?thesis by (subst fill_loop.simps) (simp add: max_def)
  qed
qed

lemma fill_loop_post:
  assumes "all_chars \<noteq> []"
  shows "returns_or_exhausted
     (\<lambda>(p', rng'). \<exists>q. p' = p @ q \<and> set q \<subseteq> set all_chars \<and> length p' = max L (length p))
     (fill_loop L all_chars (p, rng))"
  using fill_loop_post' [OF assms, of "(p, rng)" L] by simp

lemma unat_of_nat_le: "unat (of_nat i :: u64) \<le> i"
  by (simp add: unat_of_nat)

lemma shuffle_loop_post:
  "i < length p \<Longrightarrow>
   returns_or_exhausted (\<lambda>(p', rng'). mset p' = mset p) (shuffle_loop i (p, rng))"
proof (induction i arbitrary: p rng)
  case 0
  show ?case by simp
next
  case (Suc i)
  obtain res rng1 where u: "unbiased 0 (of_nat (Suc i)) rng = (res, rng1)"
    by (cases "unbiased 0 (of_nat (Suc i)) rng")
  show ?case
  proof (cases res)
    case (Inl e)
    with u unbiased_zero_post [of "of_nat (Suc i)" rng] show ?thesis by (simp add: Let_def)
  next
    case (Inr j)
    with u unbiased_zero_post [of "of_nat (Suc i)" rng] have "j \<le> of_nat (Suc i)" by simp
    then have "unat j \<le> unat (of_nat (Suc i) :: u64)" by (simp add: word_le_nat_alt)
    also have "\<dots> \<le> Suc i" by (rule unat_of_nat_le)
    finally have j: "unat j < length p" using Suc.prems by simp
    let ?p = "p[Suc i := p ! unat j, unat j := p ! Suc i]"
    have m: "mset ?p = mset p" using Suc.prems j by (simp add: mset_swap)
    have "i < length ?p" using Suc.prems by simp
    from Suc.IH [OF this, of rng1] have
      "returns_or_exhausted (\<lambda>(p', rng'). mset p' = mset p) (shuffle_loop i (?p, rng1))"
      unfolding m .
    with u Inr j Suc.prems show ?thesis by (simp add: Let_def)
  qed
qed

lemma required_step:
  assumes st: "returns_or_exhausted (\<lambda>(p, rng). Q p) st"
    and ne: "flag \<longrightarrow> cs \<noteq> []"
    and yes: "\<And>p c. Q p \<Longrightarrow> flag \<Longrightarrow> c \<in> set cs \<Longrightarrow> R (p @ [c])"
    and no: "\<And>p. Q p \<Longrightarrow> \<not> flag \<Longrightarrow> R p"
  shows "returns_or_exhausted (\<lambda>(p, rng). R p)
           (if flag then (case st of Inl e \<Rightarrow> Inl e | Inr st \<Rightarrow> append_draw cs st) else st)"
proof (cases flag)
  case True
  with ne have cs: "cs \<noteq> []" by simp
  have "returns_or_exhausted (\<lambda>(p, rng). R p) (case st of Inl e \<Rightarrow> Inl e | Inr st \<Rightarrow> append_draw cs st)"
  proof (rule returns_or_exhausted_bind [OF st])
    fix x :: "string \<times> StoneRNG"
    assume "case x of (p, rng) \<Rightarrow> Q p"
    then obtain p rng where x: "x = (p, rng)" and q: "Q p" by (cases x) auto
    show "returns_or_exhausted (\<lambda>(p, rng). R p) (append_draw cs x)"
      unfolding x
      by (rule returns_or_exhausted_mono [OF append_draw_post [OF cs]])
         (use q True yes in auto)
  qed
  with True show ?thesis by simp
next
  case False
  have "returns_or_exhausted (\<lambda>(p, rng). R p) st"
    by (rule returns_or_exhausted_mono [OF st]) (use False no in auto)
  with False show ?thesis by simp
qed

lemma build_password_post:
  assumes ne: "ru \<longrightarrow> up \<noteq> []" "rl \<longrightarrow> lo \<noteq> []" "rd \<longrightarrow> di \<noteq> []" "rs \<longrightarrow> sy \<noteq> []"
    and some: "ru \<or> rl \<or> rd \<or> rs" and L: "4 \<le> L"
  shows "returns_or_exhausted (policy_conformant L up lo di sy ru rl rd rs)
           (build_password L up lo di sy ru rl rd rs rng)"
proof -
  define A where "A c \<longleftrightarrow> (ru \<and> c \<in> set up) \<or> (rl \<and> c \<in> set lo) \<or> (rd \<and> c \<in> set di) \<or> (rs \<and> c \<in> set sy)" for c
  define all_chars where
    "all_chars =
       (let a = [];
            a = (if ru then a @ up else a);
            a = (if rl then a @ lo else a);
            a = (if rd then a @ di else a);
            a = (if rs then a @ sy else a)
        in a)"
  define Q1 where "Q1 p \<longleftrightarrow> length p \<le> 1 \<and> (\<forall>c \<in> set p. A c) \<and> (ru \<longrightarrow> (\<exists>c \<in> set p. c \<in> set up))" for p
  define Q2 where "Q2 p \<longleftrightarrow> length p \<le> 2 \<and> (\<forall>c \<in> set p. A c) \<and> (ru \<longrightarrow> (\<exists>c \<in> set p. c \<in> set up)) \<and>
     (rl \<longrightarrow> (\<exists>c \<in> set p. c \<in> set lo))" for p
  define Q3 where "Q3 p \<longleftrightarrow> length p \<le> 3 \<and> (\<forall>c \<in> set p. A c) \<and> (ru \<longrightarrow> (\<exists>c \<in> set p. c \<in> set up)) \<and>
     (rl \<longrightarrow> (\<exists>c \<in> set p. c \<in> set lo)) \<and> (rd \<longrightarrow> (\<exists>c \<in> set p. c \<in> set di))" for p
  define Q4 where "Q4 p \<longleftrightarrow> length p \<le> 4 \<and> (\<forall>c \<in> set p. A c) \<and> (ru \<longrightarrow> (\<exists>c \<in> set p. c \<in> set up)) \<and>
     (rl \<longrightarrow> (\<exists>c \<in> set p. c \<in> set lo)) \<and> (rd \<longrightarrow> (\<exists>c \<in> set p. c \<in> set di)) \<and>
     (rs \<longrightarrow> (\<exists>c \<in> set p. c \<in> set sy))" for p
  let ?P = "policy_conformant L up lo di sy ru rl rd rs"
  let ?s0 = "Inr ([], rng) :: error + string \<times> StoneRNG"
  let ?s1 = "if ru then (case ?s0 of Inl e \<Rightarrow> Inl e | Inr st \<Rightarrow> append_draw up st) else ?s0"
  let ?s2 = "if rl then (case ?s1 of Inl e \<Rightarrow> Inl e | Inr st \<Rightarrow> append_draw lo st) else ?s1"
  let ?s3 = "if rd then (case ?s2 of Inl e \<Rightarrow> Inl e | Inr st \<Rightarrow> append_draw di st) else ?s2"
  let ?s4 = "if rs then (case ?s3 of Inl e \<Rightarrow> Inl e | Inr st \<Rightarrow> append_draw sy st) else ?s3"
  let ?s5 = "case ?s4 of Inl e \<Rightarrow> Inl e | Inr st \<Rightarrow> fill_loop L all_chars st"
  let ?s6 = "case ?s5 of Inl e \<Rightarrow> Inl e | Inr st \<Rightarrow> shuffle_loop (L - 1) st"
  have b: "build_password L up lo di sy ru rl rd rs rng =
           (case ?s6 of Inl e \<Rightarrow> Inl e | Inr (password, rng) \<Rightarrow> Inr password)"
    unfolding build_password_def all_chars_def Let_def ..
  have 0: "returns_or_exhausted (\<lambda>(p, rng). p = []) ?s0" by simp
  have 1: "returns_or_exhausted (\<lambda>(p, rng). Q1 p) ?s1"
    by (rule required_step [OF 0 ne(1)]) (auto simp add: Q1_def A_def)
  have 2: "returns_or_exhausted (\<lambda>(p, rng). Q2 p) ?s2"
    by (rule required_step [OF 1 ne(2)]) (auto simp add: Q1_def Q2_def A_def)
  have 3: "returns_or_exhausted (\<lambda>(p, rng). Q3 p) ?s3"
    by (rule required_step [OF 2 ne(3)]) (auto simp add: Q2_def Q3_def A_def)
  have 4: "returns_or_exhausted (\<lambda>(p, rng). Q4 p) ?s4"
    by (rule required_step [OF 3 ne(4)]) (auto simp add: Q3_def Q4_def A_def)
  have ac: "all_chars \<noteq> []" using some ne by (auto simp add: all_chars_def Let_def)
  have as: "c \<in> set all_chars \<Longrightarrow> A c" for c
    by (auto simp add: all_chars_def A_def Let_def split: if_splits)
  have 5: "returns_or_exhausted (\<lambda>(p, rng). ?P p) ?s5"
  proof (rule returns_or_exhausted_bind [OF 4])
    fix x :: "string \<times> StoneRNG"
    assume "case x of (p, rng) \<Rightarrow> Q4 p"
    then obtain p rng1 where x: "x = (p, rng1)" and q: "Q4 p" by (cases x) auto
    show "returns_or_exhausted (\<lambda>(p, rng). ?P p) (fill_loop L all_chars x)"
      unfolding x
    proof (rule returns_or_exhausted_mono [OF fill_loop_post [OF ac]])
      fix y :: "string \<times> StoneRNG"
      assume "case y of (p', rng') \<Rightarrow> \<exists>q. p' = p @ q \<and> set q \<subseteq> set all_chars \<and> length p' = max L (length p)"
      then obtain p' rng' q' where y: "y = (p', rng')" and p': "p' = p @ q'" "set q' \<subseteq> set all_chars"
        "length p' = max L (length p)" by (cases y) auto
      from q L p'(3) have "length p' = L" by (simp add: Q4_def max_def)
      moreover from q p'(1,2) as have "\<forall>c \<in> set p'. A c" by (auto simp add: Q4_def)
      ultimately have "?P p'" using q p'(1)
        by (auto simp add: policy_conformant_def Q4_def A_def)
      then show "case y of (p, rng) \<Rightarrow> ?P p" by (simp add: y)
    qed
  qed
  have 6: "returns_or_exhausted (\<lambda>(p, rng). ?P p) ?s6"
  proof (rule returns_or_exhausted_bind [OF 5])
    fix x :: "string \<times> StoneRNG"
    assume "case x of (p, rng) \<Rightarrow> ?P p"
    then obtain p rng1 where x: "x = (p, rng1)" and q: "?P p" by (cases x) auto
    then have l: "L - 1 < length p" using L by (simp add: policy_conformant_def)
    show "returns_or_exhausted (\<lambda>(p, rng). ?P p) (shuffle_loop (L - 1) x)"
      unfolding x
    proof (rule returns_or_exhausted_mono [OF shuffle_loop_post [OF l]])
      fix y :: "string \<times> StoneRNG"
      assume "case y of (p', rng') \<Rightarrow> mset p' = mset p"
      then obtain p' rng' where y: "y = (p', rng')" and m: "mset p' = mset p" by (cases y) auto
      from m have "set p' = set p" "length p' = length p"
        by (rule mset_eq_setD, rule mset_eq_length)
      with q have "?P p'" by (simp add: policy_conformant_def)
      then show "case y of (p, rng) \<Rightarrow> ?P p" by (simp add: y)
    qed
  qed
  show ?thesis unfolding b
    by (rule returns_or_exhausted_bind [OF 6]) auto
qed

lemma build_password_no_category:
  assumes "0 < L"
  shows "build_password L up lo di sy False False False False rng =
           (case operator_call rng of (Inl e, rng') \<Rightarrow> Inl e | (Inr i, rng') \<Rightarrow> Inl Out_Of_Bounds)"
proof -
  obtain res rng1 where c: "operator_call rng = (res, rng1)" by (cases "operator_call rng")
  have u: "unbiased 0 (- 1) rng = operator_call rng"
    by (simp add: unbiased_def max_u64_def)
  have a: "append_draw [] ([], rng) = (case res of Inl e \<Rightarrow> Inl e | Inr i \<Rightarrow> Inl Out_Of_Bounds)"
    by (cases res) (simp_all add: append_draw_def draw_def u c)
  have f: "fill_loop L [] ([], rng) = (case res of Inl e \<Rightarrow> Inl e | Inr i \<Rightarrow> Inl Out_Of_Bounds)"
    using assms by (subst fill_loop.simps) (cases res; simp add: a)
  show ?thesis
    unfolding build_password_def Let_def by (cases res) (simp_all add: f c)
qed

lemma StoneRNG_Block32_ok:
  "\<exists>rng. StoneRNG_Block32 block = Inr rng \<and> word_index rng = 0"
  by (simp add: StoneRNG_Block32_def Let_def prime_def refill_buffer_eq)

lemma generate_password_valid:
  assumes "username \<noteq> []" "master_password \<noteq> []" "site_name \<noteq> []"
    "6 \<le> L" "L \<le> 128" "1 \<le> V"
    "ru \<longrightarrow> up \<noteq> []" "rl \<longrightarrow> lo \<noteq> []" "rd \<longrightarrow> di \<noteq> []" "rs \<longrightarrow> sy \<noteq> []"
  shows "\<exists>rng. word_index rng = 0 \<and>
           generate_password username master_password site_name L V up lo di sy ru rl rd rs =
           build_password (nat L) up lo di sy ru rl rd rs rng"
proof -
  let ?c = "context_string V username site_name L ru rl rd rs"
  from StoneKey_derive_ok [of master_password ?c STONEKEY_V2_M_COST STONEKEY_V2_T_COST]
  obtain hash1 where "StoneKey_derive master_password ?c STONEKEY_V2_M_COST STONEKEY_V2_T_COST = Inr hash1"
    by blast
  then have k: "StoneKey master_password ?c STONEKEY_V2_M_COST STONEKEY_V2_T_COST = Inr hash1"
    using assms(2) by (simp add: StoneKey_def STONEKEY_V2_M_COST_def STONEKEY_V2_T_COST_def)
  from StoneRNG_Block32_ok [of hash1] obtain rng where
    r: "StoneRNG_Block32 hash1 = Inr rng" and w: "word_index rng = 0" by blast
  have "generate_password username master_password site_name L V up lo di sy ru rl rd rs =
           build_password (nat L) up lo di sy ru rl rd rs rng"
    unfolding generate_password_def Let_def k using assms r by auto
  with w show ?thesis by blast
qed

lemma generate_password_outcome:
  assumes "username \<noteq> []" "master_password \<noteq> []" "site_name \<noteq> []"
    "6 \<le> L" "L \<le> 128" "1 \<le> V"
    "ru \<longrightarrow> up \<noteq> []" "rl \<longrightarrow> lo \<noteq> []" "rd \<longrightarrow> di \<noteq> []" "rs \<longrightarrow> sy \<noteq> []"
  shows "case generate_password username master_password site_name L V up lo di sy ru rl rd rs of
           Inr password \<Rightarrow>
             int (length password) = L \<and>
             (ru \<longrightarrow> (\<exists>c \<in> set password. c \<in> set up)) \<and>
             (rl \<longrightarrow> (\<exists>c \<in> set password. c \<in> set lo)) \<and>
             (rd \<longrightarrow> (\<exists>c \<in> set password. c \<in> set di)) \<and>
             (rs \<longrightarrow> (\<exists>c \<in> set password. c \<in> set sy)) \<and>
             (\<forall>c \<in> set password.
                (ru \<and> c \<in> set up) \<or> (rl \<and> c \<in> set lo) \<or> (rd \<and> c \<in> set di) \<or> (rs \<and> c \<in> set sy))
         | Inl e \<Rightarrow> e = Exhausted \<or> (e = Out_Of_Bounds \<and> \<not> ru \<and> \<not> rl \<and> \<not> rd \<and> \<not> rs)"
proof -
  from generate_password_valid [OF assms] obtain rng where w: "word_index rng = 0"
    and g: "generate_password username master_password site_name L V up lo di sy ru rl rd rs =
           build_password (nat L) up lo di sy ru rl rd rs rng" by blast
  show ?thesis
  proof (cases "ru \<or> rl \<or> rd \<or> rs")
    case True
    from assms(4) have "4 \<le> nat L" by simp
    from build_password_post [OF assms(7-10) True this, of rng] assms(4) show ?thesis
      unfolding g by (cases "build_password (nat L) up lo di sy ru rl rd rs rng")
        (auto simp add: policy_conformant_def)
  next
    case False
    from assms(4) have "0 < nat L" by simp
    from build_password_no_category [OF this, of up lo di sy rng] w False show ?thesis
      unfolding g by (simp add: operator_call_buffered)
  qed
qed

text \<open>
  Claim C5.  For every input that passes the validation, the password that
  \<open>generate_password\<close> returns has length exactly \<open>L\<close>, has for each required category
  at least one character of that category's character set, and has all its characters in
  the union of the required categories' sets.  Where no password is returned, the
  generator's keystream was exhausted during rejection sampling, or no category was
  required at all (then the empty pool is indexed out of bounds).
\<close>

theorem generate_password_conformant:
  assumes "username \<noteq> []" "master_password \<noteq> []" "site_name \<noteq> []"
    "6 \<le> L" "L \<le> 128" "1 \<le> V"
    "ru \<longrightarrow> up \<noteq> []" "rl \<longrightarrow> lo \<noteq> []" "rd \<longrightarrow> di \<noteq> []" "rs \<longrightarrow> sy \<noteq> []"
  shows "case generate_password username master_password site_name L V up lo di sy ru rl rd rs of
           Inr password \<Rightarrow>
             int (length password) = L \<and>
             (ru \<longrightarrow> (\<exists>c \<in> set password. c \<in> set up)) \<and>
             (rl \<longrightarrow> (\<exists>c \<in> set password. c \<in> set lo)) \<and>
             (rd \<longrightarrow> (\<exists>c \<in> set password. c \<in> set di)) \<and>
             (rs \<longrightarrow> (\<exists>c \<in> set password. c \<in> set sy)) \<and>
             (\<forall>c \<in> set password.
                (ru \<and> c \<in> set up) \<or> (rl \<and> c \<in> set lo) \<or> (rd \<and> c \<in> set di) \<or> (rs \<and> c \<in> set sy))
         | Inl e \<Rightarrow> e = Exhausted \<or> (e = Out_Of_Bounds \<and> \<not> ru \<and> \<not> rl \<and> \<not> rd \<and> \<not> rs)"
  using assms by (rule generate_password_outcome)

theorem generate_password_conformant_witness:
  "case generate_password ''alice'' ''correct horse battery staple'' ''github.com'' 20 1
          STONEPASS_UPPERCASE STONEPASS_LOWERCASE STONEPASS_DIGITS STONEPASS_SYMBOLS
          True True True True of
     Inr password \<Rightarrow>
       length password = 20 \<and>
       (\<exists>c \<in> set password. c \<in> set STONEPASS_UPPERCASE) \<and>
       (\<exists>c \<in> set password. c \<in> set STONEPASS_LOWERCASE) \<and>
       (\<exists>c \<in> set password. c \<in> set STONEPASS_DIGITS) \<and>
       (\<exists>c \<in> set password. c \<in> set STONEPASS_SYMBOLS) \<and>
       set password \<subseteq> set STONEPASS_UPPERCASE \<union> set STONEPASS_LOWERCASE \<union>
         set STONEPASS_DIGITS \<union> set STONEPASS_SYMBOLS
   | Inl e \<Rightarrow> e = Exhausted"
proof -
  have "''alice'' \<noteq> []" "''correct horse battery staple'' \<noteq> []" "''github.com'' \<noteq> []"
    "(6 :: int) \<le> 20" "(20 :: int) \<le> 128" "(1 :: int) \<le> 1"
    "True \<longrightarrow> STONEPASS_UPPERCASE \<noteq> []" "True \<longrightarrow> STONEPASS_LOWERCASE \<noteq> []"
    "True \<longrightarrow> STONEPASS_DIGITS \<noteq> []" "True \<longrightarrow> STONEPASS_SYMBOLS \<noteq> []"
    by (simp_all add: STONEPASS_UPPERCASE_def STONEPASS_LOWERCASE_def STONEPASS_DIGITS_def
        STONEPASS_SYMBOLS_def)
  from generate_password_conformant [OF this] show ?thesis
    by (auto split: sum.splits)
qed

lemma generate_password_invalid_iff:
  "generate_password username master_password site_name L V up lo di sy ru rl rd rs = Inl Invalid_Argument \<longleftrightarrow>
     username = [] \<or> master_password = [] \<or> site_name = [] \<or> L < 6 \<or> L > 128 \<or> V < 1 \<or>
     (ru \<and> up = []) \<or> (rl \<and> lo = []) \<or> (rd \<and> di = []) \<or> (rs \<and> sy = []) \<or>
     L < (if ru then 1 else 0) + (if rl then 1 else 0) + (if rd then 1 else 0) + (if rs then 1 else 0)"
proof (cases "username = [] \<or> master_password = [] \<or> site_name = [] \<or> L < 6 \<or> L > 128 \<or> V < 1 \<or>
     (ru \<and> up = []) \<or> (rl \<and> lo = []) \<or> (rd \<and> di = []) \<or> (rs \<and> sy = [])")
  case True
  then show ?thesis by (auto simp add: generate_password_def)
next
  case False
  then have v: "username \<noteq> []" "master_password \<noteq> []" "site_name \<noteq> []"
    "6 \<le> L" "L \<le> 128" "1 \<le> V"
    "ru \<longrightarrow> up \<noteq> []" "rl \<longrightarrow> lo \<noteq> []" "rd \<longrightarrow> di \<noteq> []" "rs \<longrightarrow> sy \<noteq> []"
    by auto
  from generate_password_outcome [OF v]
  have "generate_password username master_password site_name L V up lo di sy ru rl rd rs \<noteq> Inl Invalid_Argument"
    by (auto split: sum.splits)
  with False v(4) show ?thesis by auto
qed

text \<open>
  Claim C6 says that every input that is not rejected with an invalid-argument error
  yields a password.  The rejection is as claimed (\<open>generate_password_invalid_iff\<close>), but
  an input that requires no category passes the validation: \<open>all_chars\<close> is empty,
  \<open>characters.size() - 1\<close> wraps to the largest \<open>size_t\<close>, \<open>unbiased\<close> returns a raw
  keystream word and the empty string is indexed with it.
\<close>

theorem generate_password_no_category_required:
  "generate_password ''alice'' ''correct horse battery staple'' ''github.com'' 20 1
      STONEPASS_UPPERCASE STONEPASS_LOWERCASE STONEPASS_DIGITS STONEPASS_SYMBOLS
      False False False False = Inl Out_Of_Bounds"
proof -
  have "''alice'' \<noteq> []" "''correct horse battery staple'' \<noteq> []" "''github.com'' \<noteq> []"
    "(6 :: int) \<le> 20" "(20 :: int) \<le> 128" "(1 :: int) \<le> 1"
    "False \<longrightarrow> STONEPASS_UPPERCASE \<noteq> []" "False \<longrightarrow> STONEPASS_LOWERCASE \<noteq> []"
    "False \<longrightarrow> STONEPASS_DIGITS \<noteq> []" "False \<longrightarrow> STONEPASS_SYMBOLS \<noteq> []"
    by simp_all
  from generate_password_valid [OF this] obtain rng where w: "word_index rng = 0"
    and g: "generate_password ''alice'' ''correct horse battery staple'' ''github.com'' 20 1
      STONEPASS_UPPERCASE STONEPASS_LOWERCASE STONEPASS_DIGITS STONEPASS_SYMBOLS
      False False False False =
      build_password (nat 20) STONEPASS_UPPERCASE STONEPASS_LOWERCASE STONEPASS_DIGITS
        STONEPASS_SYMBOLS False False False False rng" by blast
  have "0 < nat 20" by simp
  from build_password_no_category [OF this, of _ _ _ _ rng] w show ?thesis
    unfolding g by (simp add: operator_call_buffered)
qed

end
